theory Spec2Isabelle
  imports Complex_Main "HOL-Library.Extended_Nat" "HOL-Library.While_Combinator"
    "HOL-Library.Log_Nat"
begin

section \<open>Strings of the interpreter\<close>

text \<open>
  A JavaScript string is a sequence of UTF-16 code units. The code units are kept as
  natural numbers, so that the characters \<open>trim\<close> removes (which lie beyond one byte)
  and the marks of the log lines can be written down. \<open>js\<close> embeds an ASCII literal.
\<close>

type_synonym jsstring = "nat list"

definition js :: "string \<Rightarrow> jsstring" where
  "js s = map of_char s"

text \<open>\<open>String.prototype.trim\<close>: white space and line terminators of ECMAScript.\<close>

definition isWhiteSpace :: "nat \<Rightarrow> bool" where
  "isWhiteSpace c \<longleftrightarrow>
     c = 0x09 \<or> c = 0x0A \<or> c = 0x0B \<or> c = 0x0C \<or> c = 0x0D \<or> c = 0x20 \<or> c = 0xA0 \<or>
     c = 0x1680 \<or> (0x2000 \<le> c \<and> c \<le> 0x200A) \<or> c = 0x2028 \<or> c = 0x2029 \<or>
     c = 0x202F \<or> c = 0x205F \<or> c = 0x3000 \<or> c = 0xFEFF"

definition trim :: "jsstring \<Rightarrow> jsstring" where
  "trim s = rev (dropWhile isWhiteSpace (rev (dropWhile isWhiteSpace s)))"

text \<open>\<open>code.split("\n")\<close>: the pieces between line feeds; the empty text gives one empty line.\<close>

fun split_nl :: "jsstring \<Rightarrow> jsstring list" where
  "split_nl [] = [[]]"
| "split_nl (c # cs) =
     (if c = 0x0A then [] # split_nl cs
      else (case split_nl cs of [] \<Rightarrow> [[c]] | l # ls \<Rightarrow> (c # l) # ls))"

definition startsWith :: "jsstring \<Rightarrow> jsstring \<Rightarrow> bool" where
  "startsWith s p \<longleftrightarrow> take (length p) s = p"

section \<open>The patterns of parseCode\<close>

text \<open>
  The three regular expressions of \<open>parseCode\<close> are sequences of literal characters, the
  assertion \<open>$\<close> (end of input: none of them has the multiline flag) and, in the
  first, the capturing group \<open>(\d+)\<close>.
\<close>

datatype rx = Lit nat | Eos | DigitsGroup

definition isDigit :: "nat \<Rightarrow> bool" where
  "isDigit c \<longleftrightarrow> 0x30 \<le> c \<and> c \<le> 0x39"

fun first_some :: "'a option list \<Rightarrow> 'a option" where
  "first_some [] = None"
| "first_some (None # xs) = first_some xs"
| "first_some (Some x # xs) = Some x"

text \<open>
  \<open>match_here p s\<close> matches the pattern \<open>p\<close> at the front of the rest \<open>s\<close> of the input
  and returns the captures. \<open>\d+\<close> is greedy: the longest run of digits is tried first,
  then shorter ones, down to one digit.
\<close>

fun match_here :: "rx list \<Rightarrow> jsstring \<Rightarrow> jsstring list option" where
  "match_here [] s = Some []"
| "match_here (Lit c # p) s =
     (case s of [] \<Rightarrow> None | x # xs \<Rightarrow> if x = c then match_here p xs else None)"
| "match_here (Eos # p) s = (if s = [] then match_here p s else None)"
| "match_here (DigitsGroup # p) s =
     first_some (map (\<lambda>n. map_option (\<lambda>caps. take n s # caps) (match_here p (drop n s)))
                     (rev [1 ..< Suc (length (takeWhile isDigit s))]))"

text \<open>
  \<open>s.match(re)\<close> without the global flag: the first start position, from the left, at
  which the pattern matches; \<open>None\<close> is \<open>null\<close>. The result lists the captures, so
  capture 1 of the source is its head.
\<close>

definition js_match :: "rx list \<Rightarrow> jsstring \<Rightarrow> jsstring list option" where
  "js_match p s = first_some (map (\<lambda>i. match_here p (drop i s)) [0 ..< Suc (length s)])"

text \<open>\<open>/forward$$(\d+)$$/\<close>, \<open>/left$$$$/\<close> and \<open>/right$$$$/\<close>, as the source has them.\<close>

definition forward_rx :: "rx list" where
  "forward_rx = map Lit (js ''forward'') @ [Eos, Eos, DigitsGroup, Eos, Eos]"

definition left_rx :: "rx list" where
  "left_rx = map Lit (js ''left'') @ [Eos, Eos, Eos, Eos]"

definition right_rx :: "rx list" where
  "right_rx = map Lit (js ''right'') @ [Eos, Eos, Eos, Eos]"

text \<open>\<open>Number.parseInt\<close> on a run of decimal digits (the only text capture 1 can hold).\<close>

definition parseInt :: "jsstring \<Rightarrow> nat" where
  "parseInt ds = foldl (\<lambda>n d. 10 * n + (d - 0x30)) 0 ds"

text \<open>The body of the loop over the lines, and \<open>parseCode\<close>.\<close>

definition parse_line :: "jsstring list \<Rightarrow> jsstring \<Rightarrow> jsstring list" where
  "parse_line commands line =
     (let trimmed = trim line in
      if trimmed \<noteq> [] \<and> \<not> startsWith trimmed (js ''#'') then
        (let forwardMatch = js_match forward_rx trimmed;
             leftMatch = js_match left_rx trimmed;
             rightMatch = js_match right_rx trimmed
         in case forwardMatch of
              Some caps \<Rightarrow>
                (let steps = parseInt (case caps of [] \<Rightarrow> [] | g # _ \<Rightarrow> g)
                 in commands @ replicate steps (js ''forward''))
            | None \<Rightarrow>
                if leftMatch \<noteq> None then commands @ [js ''left'']
                else if rightMatch \<noteq> None then commands @ [js ''right'']
                else commands)
      else commands)"

definition parseCode :: "jsstring \<Rightarrow> jsstring list" where
  "parseCode code = foldl parse_line [] (split_nl code)"

section \<open>Maze, agent and game state\<close>

datatype TileType = EMPTY | WALL | GOAL

datatype Direction = NORTH | EAST | SOUTH | WEST

text \<open>The numeric values of the enum \<open>Direction\<close>, and the member a value stands for.\<close>

fun dir_num :: "Direction \<Rightarrow> nat" where
  "dir_num NORTH = 0"
| "dir_num EAST = 1"
| "dir_num SOUTH = 2"
| "dir_num WEST = 3"

definition num_dir :: "nat \<Rightarrow> Direction" where
  "num_dir n = (if n = 0 then NORTH else if n = 1 then EAST else if n = 2 then SOUTH else WEST)"

record Agent =
  row :: int
  col :: int
  direction :: Direction
  totalSteps :: nat

record GameState =
  maze :: "TileType list list"
  agent :: Agent
  goalPos :: "int \<times> int"
  output_log :: "jsstring list"
  isComplete :: bool

text \<open>What \<open>executeCode\<close> returns.\<close>

record ExecResult =
  success :: bool
  steps :: nat
  result_output :: "jsstring list"

definition maxSteps :: nat where
  "maxSteps = 100"

definition deltas :: "(int \<times> int) list" where
  "deltas = [(-1, 0), (0, 1), (1, 0), (0, -1)]"

definition getForwardPosition :: "GameState \<Rightarrow> int \<times> int" where
  "getForwardPosition gs =
     (let a = agent gs; (dr, dc) = deltas ! dir_num (direction a)
      in (row a + dr, col a + dc))"

text \<open>
  \<open>isValidPosition\<close>: the conjunction of the source is evaluated from the left, so the
  length of row 0 is read only when the maze has a row.
\<close>

definition isValidPosition :: "GameState \<Rightarrow> int \<Rightarrow> int \<Rightarrow> bool" where
  "isValidPosition gs r c \<longleftrightarrow>
     r \<ge> 0 \<and> r < int (length (maze gs)) \<and> c \<ge> 0 \<and>
     (case maze gs of [] \<Rightarrow> False | row0 # _ \<Rightarrow> c < int (length row0))"

text \<open>\<open>maze[r][c]\<close> for a row index in range; a column beyond the row reads \<open>undefined\<close>.\<close>

definition tile_at :: "TileType list list \<Rightarrow> int \<Rightarrow> int \<Rightarrow> TileType option" where
  "tile_at m r c =
     (if 0 \<le> r \<and> r < int (length m) \<and> 0 \<le> c \<and> c < int (length (m ! nat r))
      then Some (m ! nat r ! nat c) else None)"

definition isAtGoal :: "GameState \<Rightarrow> bool" where
  "isAtGoal gs \<longleftrightarrow> row (agent gs) = fst (goalPos gs) \<and> col (agent gs) = snd (goalPos gs)"

text \<open>The object \<open>{ success, error? }\<close> that \<open>executeCommand\<close> returns.\<close>

datatype CommandResult = Success | Failure jsstring

definition executeCommand :: "jsstring \<Rightarrow> GameState \<Rightarrow> CommandResult \<times> GameState" where
  "executeCommand command gs =
     (if command = js ''forward'' then
        (let (nr, nc) = getForwardPosition gs in
         if \<not> isValidPosition gs nr nc then (Failure (js ''Hit boundary!''), gs)
         else if tile_at (maze gs) nr nc = Some WALL then (Failure (js ''Hit wall!''), gs)
         else (Success,
               gs\<lparr>agent := (agent gs)\<lparr>row := nr, col := nc,
                                        totalSteps := totalSteps (agent gs) + 1\<rparr>\<rparr>))
      else if command = js ''left'' then
        (Success, gs\<lparr>agent := (agent gs)\<lparr>direction :=
                        num_dir ((dir_num (direction (agent gs)) + 3) mod 4)\<rparr>\<rparr>)
      else if command = js ''right'' then
        (Success, gs\<lparr>agent := (agent gs)\<lparr>direction :=
                        num_dir ((dir_num (direction (agent gs)) + 1) mod 4)\<rparr>\<rparr>)
      else (Failure (js ''Unknown command: '' @ command), gs))"

text \<open>The lines of the log; each starts with a mark (U+274C or U+2705) and a space.\<close>

definition msg_max_steps :: jsstring where
  "msg_max_steps = 0x274C # js '' Maximum steps exceeded!''"

definition msg_error :: "jsstring \<Rightarrow> jsstring" where
  "msg_error e = 0x274C # js '' '' @ e"

definition msg_goal :: jsstring where
  "msg_goal = 0x2705 # js '' Goal reached!''"

definition msg_not_reached :: jsstring where
  "msg_not_reached = 0x274C # js '' Code completed but goal not reached''"

definition finish :: "bool \<Rightarrow> GameState \<Rightarrow> ExecResult \<times> GameState" where
  "finish ok gs =
     (\<lparr>success = ok, steps = totalSteps (agent gs), result_output = output_log gs\<rparr>, gs)"

definition push_output :: "jsstring \<Rightarrow> GameState \<Rightarrow> GameState" where
  "push_output line gs = gs\<lparr>output_log := output_log gs @ [line]\<rparr>"

text \<open>
  The loop of \<open>executeCode\<close> over the commands: \<open>Inl\<close> is a \<open>return\<close> from inside the
  loop, \<open>Inr\<close> the state with which the loop runs out of commands.
\<close>

fun exec_loop :: "jsstring list \<Rightarrow> GameState \<Rightarrow> (ExecResult \<times> GameState) + GameState" where
  "exec_loop [] gs = Inr gs"
| "exec_loop (command # rest) gs =
     (if totalSteps (agent gs) \<ge> maxSteps then Inl (finish False (push_output msg_max_steps gs))
      else case executeCommand command gs of
             (Failure e, gs') \<Rightarrow> Inl (finish False (push_output (msg_error e) gs'))
           | (Success, gs') \<Rightarrow>
               if isAtGoal gs' then Inl (finish True (push_output msg_goal (gs'\<lparr>isComplete := True\<rparr>)))
               else exec_loop rest gs')"

text \<open>\<open>executeCode\<close> from the parsed commands on, and \<open>executeCode\<close> itself.\<close>

definition runCommands :: "jsstring list \<Rightarrow> GameState \<Rightarrow> ExecResult \<times> GameState" where
  "runCommands commands gs =
     (case exec_loop commands (gs\<lparr>output_log := [], isComplete := False\<rparr>) of
        Inl r \<Rightarrow> r
      | Inr gs' \<Rightarrow>
          if \<not> isAtGoal gs' then finish False (push_output msg_not_reached gs')
          else finish True gs')"


text \<open>The maze of the data model is rectangular: every row is as long as the first.\<close>

definition rectangular :: "'a list list \<Rightarrow> bool" where
  "rectangular m \<longleftrightarrow> (\<forall>r \<in> set m. length r = length (hd m))"

text \<open>The agent stands on a cell of the grid that is not a wall.\<close>

definition agent_ok :: "GameState \<Rightarrow> bool" where
  "agent_ok gs \<longleftrightarrow>
     isValidPosition gs (row (agent gs)) (col (agent gs)) \<and>
     tile_at (maze gs) (row (agent gs)) (col (agent gs)) \<noteq> Some WALL"

subsection \<open>The levels of the game\<close>

text \<open>\<open>maze[r][c] = t\<close>, for indices in range.\<close>

definition set_tile :: "TileType list list \<Rightarrow> nat \<Rightarrow> nat \<Rightarrow> TileType \<Rightarrow> TileType list list" where
  "set_tile m r c t = m[r := (m ! r)[c := t]]"

text \<open>What \<open>createLevelMaze\<close> returns.\<close>

record LevelData =
  level_maze :: "TileType list list"
  startPos :: "int \<times> int"
  level_goalPos :: "int \<times> int"
  optimal :: int

text \<open>
  \<open>createLevelMaze\<close>: a maze of 15 rows and 15 columns with walls around the border, the
  walls of the level, and the goal tile. The loop \<open>for (i = 2; i < 13; i += 3)\<close> of
  level 2 runs over 2, 5, 8 and 11.
\<close>

definition createLevelMaze :: "int \<Rightarrow> LevelData" where
  "createLevelMaze levelId =
     (let size = 15;
          maze0 = replicate size (replicate size EMPTY);
          maze1 = foldl (\<lambda>m i. set_tile (set_tile (set_tile (set_tile m 0 i WALL)
                                   (size - 1) i WALL) i 0 WALL) i (size - 1) WALL)
                    maze0 [0 ..< size];
          (maze2, optimal) =
            (if levelId = 1 then
               (let a = foldl (\<lambda>m i. set_tile m i 5 WALL) maze1 [2 ..< 8];
                    b = foldl (\<lambda>m i. set_tile m 8 i WALL) a [6 ..< 13];
                    c = foldl (\<lambda>m i. set_tile m i 10 WALL) b [9 ..< 13]
                in (c, 28))
             else if levelId = 2 then
               (foldl (\<lambda>m i. foldl (\<lambda>m j. set_tile m i j WALL) m [2, 5, 8, 11])
                  maze1 [2, 5, 8, 11], 26)
             else
               (foldl (\<lambda>m (r, c). if r < size \<and> c < size then set_tile m r c WALL else m) maze1
                  [(3, 3), (3, 4), (3, 5), (3, 9), (3, 10), (3, 11), (5, 7), (6, 7), (7, 7),
                   (8, 7), (9, 7), (7, 3), (7, 4), (7, 5), (7, 9), (7, 10), (7, 11), (11, 5),
                   (11, 6), (11, 7), (11, 8), (11, 9)], 30));
          goal = (13, 13)
      in \<lparr>level_maze = set_tile maze2 13 13 GOAL, startPos = (1, 1), level_goalPos = goal,
          optimal = optimal\<rparr>)"

text \<open>
  The state \<open>resetState\<close> that the component builds for every run and hands to the
  \<open>CodeExecutor\<close>: the maze of the level, the agent on the start cell facing east with
  no steps.
\<close>

definition resetState :: "int \<Rightarrow> GameState" where
  "resetState levelId =
     (let levelData = createLevelMaze levelId in
      \<lparr>maze = level_maze levelData,
       agent = \<lparr>row = fst (startPos levelData), col = snd (startPos levelData),
                direction = EAST, totalSteps = 0\<rparr>,
       goalPos = level_goalPos levelData, output_log = [], isComplete = False\<rparr>)"

subsection \<open>An example script and an example maze\<close>



definition turnaroundCommands :: "jsstring list" where
  "turnaroundCommands =
     concat (replicate 9 (replicate 12 (js ''forward'') @ [js ''right'', js ''right'']))"

text \<open>A maze of two rows, with a wall east of the agent and the goal south of it.\<close>

definition yard :: "Direction \<Rightarrow> GameState" where
  "yard d = \<lparr>maze = [[EMPTY, WALL], [GOAL, EMPTY]],
             agent = \<lparr>row = 0, col = 0, direction = d, totalSteps = 0\<rparr>,
             goalPos = (1, 0), output_log = [], isComplete = False\<rparr>"

section \<open>The grid of the visualizer\<close>

text \<open>
  A node object is addressed by its coordinates \<open>(x, y)\<close>: \<open>initializeGrid\<close> stores the
  column index in \<open>x\<close> and the row index in \<open>y\<close>, and nothing changes them. The grid
  \<open>Node[][]\<close> is the store that maps the address of a node to its fields, so that the
  open set, the closed set and the parent links, which hold references to nodes of the
  grid, hold addresses. \<open>distance\<close> and \<open>fScore\<close> are natural numbers or
  \<open>Number.POSITIVE_INFINITY\<close>.
\<close>

type_synonym pos = "int \<times> int"

datatype AlgorithmType = Dijkstra | AStar | BFS | DFS

datatype NodeState = Wall | Empty | Start | Goal | Exploring | Explored | Path

record Node =
  state :: NodeState
  distance :: enat
  heuristic :: nat
  fScore :: enat
  parent :: "pos option"

type_synonym Grid = "pos \<Rightarrow> Node"

record AlgorithmStats =
  nodesExplored :: nat
  pathLength :: int
  executionTime :: int
  optimalPath :: bool
  efficiency :: int

definition GRID_SIZE :: int where
  "GRID_SIZE = 20"

text \<open>
  \<open>initializeGrid\<close>; \<open>rnd (x, y)\<close> tells whether \<open>Math.random() < 0.25\<close> came out true
  at the cell.
\<close>

definition initializeGrid :: "(pos \<Rightarrow> bool) \<Rightarrow> Grid" where
  "initializeGrid rnd = (\<lambda>(x, y).
     (let st0 = (if rnd (x, y) \<and> \<not> (x = 1 \<and> y = 1)
                    \<and> \<not> (x = GRID_SIZE - 2 \<and> y = GRID_SIZE - 2) then Wall else Empty);
          st1 = (if x = 1 \<and> y = 1 then Start else st0);
          st2 = (if x = GRID_SIZE - 2 \<and> y = GRID_SIZE - 2 then Goal else st1)
      in \<lparr>state = st2, distance = \<infinity>, heuristic = 0, fScore = \<infinity>, parent = None\<rparr>))"

definition calculateHeuristic :: "pos \<Rightarrow> pos \<Rightarrow> nat" where
  "calculateHeuristic node goal =
     nat (\<bar>fst node - fst goal\<bar> + \<bar>snd node - snd goal\<bar>)"

definition directions :: "(int \<times> int) list" where
  "directions = [(-1, 0), (1, 0), (0, -1), (0, 1)]"

definition getNeighbors :: "pos \<Rightarrow> Grid \<Rightarrow> pos list" where
  "getNeighbors node g =
     concat (map (\<lambda>(dx, dy).
       (let newX = fst node + dx; newY = snd node + dy in
        if newX \<ge> 0 \<and> newX < GRID_SIZE \<and> newY \<ge> 0 \<and> newY < GRID_SIZE then
          (if state (g (newX, newY)) \<noteq> Wall then [(newX, newY)] else [])
        else [])) directions)"

section \<open>The search of runAlgorithm\<close>

text \<open>The reset of the grid at the start of a run.\<close>

definition resetNode :: "Node \<Rightarrow> Node" where
  "resetNode node =
     node\<lparr>state := (if state node = Exploring \<or> state node = Explored \<or> state node = Path
                     then Empty else state node),
          distance := (if state node = Start then 0 else \<infinity>),
          fScore := \<infinity>,
          parent := None\<rparr>"

definition startNode :: pos where
  "startNode = (1, 1)"

definition goalNode :: pos where
  "goalNode = (GRID_SIZE - 2, GRID_SIZE - 2)"

text \<open>The local variables of the search loop.\<close>

record SearchState =
  newGrid :: Grid
  openSet :: "pos list"
  closedSet :: "pos set"
  explored :: nat
  pathFound :: bool

text \<open>The state before the loop: the open set holds the start node.\<close>

definition initSearch :: "AlgorithmType \<Rightarrow> Grid \<Rightarrow> SearchState" where
  "initSearch alg g =
     (let g1 = g(startNode := (g startNode)\<lparr>distance := 0\<rparr>);
          g2 = (if alg = AStar then
                  g1(startNode := (g1 startNode)\<lparr>heuristic := calculateHeuristic startNode goalNode,
                                                 fScore := enat (calculateHeuristic startNode goalNode)\<rparr>)
                else g1)
      in \<lparr>newGrid = g2, openSet = [startNode], closedSet = {}, explored = 0,
          pathFound = False\<rparr>)"

text \<open>The key of the sort: \<open>fScore\<close> for A*, \<open>distance\<close> otherwise.\<close>

definition sortKey :: "AlgorithmType \<Rightarrow> Grid \<Rightarrow> pos \<Rightarrow> enat" where
  "sortKey alg g p = (if alg = AStar then fScore (g p) else distance (g p))"

text \<open>The body of the loop over the neighbors.\<close>

definition relax :: "AlgorithmType \<Rightarrow> pos \<Rightarrow> SearchState \<Rightarrow> pos \<Rightarrow> SearchState" where
  "relax alg current s neighbor =
     (if neighbor \<in> closedSet s then s
      else
        (let tentativeDistance = distance (newGrid s current) + 1 in
         if tentativeDistance < distance (newGrid s neighbor) then
           (let g1 = (newGrid s)(neighbor := (newGrid s neighbor)
                        \<lparr>distance := tentativeDistance, parent := Some current\<rparr>);
                g2 = (if alg = AStar then
                        g1(neighbor := (g1 neighbor)
                          \<lparr>heuristic := calculateHeuristic neighbor goalNode,
                           fScore := distance (g1 neighbor)
                                     + enat (calculateHeuristic neighbor goalNode)\<rparr>)
                      else g1)
            in s\<lparr>newGrid := g2,
                 openSet := (if neighbor \<in> set (openSet s) then openSet s
                             else openSet s @ [neighbor])\<rparr>)
         else s))"

definition markNode :: "NodeState \<Rightarrow> pos \<Rightarrow> Grid \<Rightarrow> Grid" where
  "markNode st p g =
     (if state (g p) \<noteq> Start \<and> state (g p) \<noteq> Goal then g(p := (g p)\<lparr>state := st\<rparr>) else g)"

text \<open>
  One iteration of the \<open>while\<close> loop. The sort of the open set is stable; the loop
  condition makes sure that the sorted list has a head.
\<close>

definition searchStep :: "AlgorithmType \<Rightarrow> SearchState \<Rightarrow> SearchState" where
  "searchStep alg s =
     (case sort_key (sortKey alg (newGrid s)) (openSet s) of
        [] \<Rightarrow> s
      | current # rest \<Rightarrow>
          (let s1 = s\<lparr>openSet := rest, closedSet := insert current (closedSet s)\<rparr> in
           if current = goalNode then s1\<lparr>pathFound := True\<rparr>
           else
             (let s2 = s1\<lparr>newGrid := markNode Exploring current (newGrid s1),
                          explored := explored s1 + 1\<rparr>;
                  neighbors = getNeighbors current (newGrid s2);
                  s3 = foldl (relax alg current) s2 neighbors
              in s3\<lparr>newGrid := markNode Explored current (newGrid s3)\<rparr>)))"

definition searchLoop :: "AlgorithmType \<Rightarrow> SearchState \<Rightarrow> SearchState option" where
  "searchLoop alg s =
     while_option (\<lambda>s. openSet s \<noteq> [] \<and> \<not> pathFound s) (searchStep alg) s"

text \<open>
  The reconstruction of the path: the loop runs while \<open>current\<close> is not \<open>null\<close>. Its
  state is the grid, \<open>current\<close> and \<open>path\<close>.
\<close>

definition reconstructStep :: "Grid \<times> pos option \<times> pos list \<Rightarrow> Grid \<times> pos option \<times> pos list" where
  "reconstructStep = (\<lambda>(g, current, path).
     (case current of
        None \<Rightarrow> (g, current, path)
      | Some c \<Rightarrow> (markNode Path c g, parent (g c), c # path)))"

definition reconstructPath :: "Grid \<Rightarrow> (Grid \<times> pos list) option" where
  "reconstructPath g =
     map_option (\<lambda>(g', current, path). (g', path))
       (while_option (\<lambda>(g, current, path). current \<noteq> None) reconstructStep
          (g, Some goalNode, []))"

text \<open>
  The state of the component that a run reads and writes: \<open>grid\<close> (\<open>None\<close> is the
  empty array of the first render) and \<open>stats\<close>.
\<close>

record Visualizer =
  grid :: "Grid option"
  stats :: AlgorithmStats

text \<open>
  The arithmetic of the efficiency is in double precision. \<open>roundToDouble x\<close> is the
  double nearest to the rational \<open>x\<close>, ties to the even significand of 53 bits (the
  numbers at hand are far from the ends of the exponent range): \<open>k\<close> is the exponent of
  the leading bit of \<open>x\<close>, which the bit lengths of numerator and denominator give up to
  one.
\<close>

definition pow2 :: "int \<Rightarrow> rat" where
  "pow2 e = (if e \<ge> 0 then 2 ^ nat e else 1 / 2 ^ nat (- e))"

definition roundHalfEven :: "rat \<Rightarrow> int" where
  "roundHalfEven q =
     (let f = \<lfloor>q\<rfloor>; r = q - of_int f
      in if r < 1 / 2 then f else if r > 1 / 2 then f + 1 else if even f then f else f + 1)"

definition roundToDouble :: "rat \<Rightarrow> rat" where
  "roundToDouble x =
     (if x = 0 then 0
      else
        (let (a, b) = quotient_of \<bar>x\<bar>;
             k0 = bitlen a - bitlen b;
             k = (if pow2 k0 \<le> \<bar>x\<bar> then k0 else k0 - 1);
             e = k - 52;
             m = roundHalfEven (\<bar>x\<bar> / pow2 e)
         in sgn x * of_int m * pow2 e))"

text \<open>
  \<open>Math.round(Math.max(0, 100 - (nodesExplored / (GRID_SIZE * GRID_SIZE)) * 100))\<close>: the
  quotient, the product and the difference are each rounded to a double; \<open>Math.round\<close>
  gives the nearest integer and rounds a half up.
\<close>

definition efficiencyOf :: "nat \<Rightarrow> int" where
  "efficiencyOf n =
     (let a = roundToDouble (of_nat n / of_int (GRID_SIZE * GRID_SIZE));
          b = roundToDouble (a * 100);
          c = roundToDouble (100 - b)
      in \<lfloor>max 0 c + 1 / 2\<rfloor>)"

text \<open>
  \<open>runAlgorithm\<close>. \<open>elapsed\<close> is the difference of the two readings of the clock.
  \<open>None\<close> stands for a run that does not return. \<open>setStats\<close> and \<open>setGrid\<close> are
  called in every iteration that explores a node, and \<open>setGrid\<close> again when a node
  of the path is marked; \<open>setGrid\<close> hands the node objects of \<open>newGrid\<close> to the
  component, so from then on the grid of the component is \<open>newGrid\<close> with all that is
  written to its nodes.
\<close>

definition runAlgorithm :: "AlgorithmType \<Rightarrow> int \<Rightarrow> Visualizer \<Rightarrow> Visualizer option" where
  "runAlgorithm selectedAlgorithm elapsed v =
     (case grid v of
        None \<Rightarrow> Some v
      | Some g \<Rightarrow>
          if selectedAlgorithm = Dijkstra \<or> selectedAlgorithm = AStar then
            (case searchLoop selectedAlgorithm
                    (initSearch selectedAlgorithm (\<lambda>p. resetNode (g p))) of
               None \<Rightarrow> None
             | Some s \<Rightarrow>
                 (let v1 = (if explored s = 0 then v
                            else v\<lparr>grid := Some (newGrid s),
                                   stats := (stats v)\<lparr>nodesExplored := explored s\<rparr>\<rparr>)
                  in if pathFound s then
                       (case reconstructPath (newGrid s) of
                          None \<Rightarrow> None
                        | Some (g', path) \<Rightarrow>
                            (let v2 = (if explored s \<noteq> 0 \<or> (\<exists>p \<in> set path. state (g' p) = Path)
                                       then v1\<lparr>grid := Some g'\<rparr> else v1);
                                 pathLength = int (length path) - 1
                             in Some (v2\<lparr>stats := \<lparr>nodesExplored = explored s,
                                                    pathLength = pathLength,
                                                    executionTime = elapsed,
                                                    optimalPath = (pathLength \<le> 35),
                                                    efficiency = efficiencyOf (explored s)\<rparr>\<rparr>)))
                     else Some v1))
          else Some v)"

definition resetGrid :: "(pos \<Rightarrow> bool) \<Rightarrow> Visualizer \<Rightarrow> Visualizer" where
  "resetGrid rnd v =
     v\<lparr>stats := \<lparr>nodesExplored = 0, pathLength = 0, executionTime = 0,
                  optimalPath = False, efficiency = 0\<rparr>,
       grid := Some (initializeGrid rnd)\<rparr>"

section \<open>Paths in the grid\<close>

definition inGrid :: "pos \<Rightarrow> bool" where
  "inGrid p \<longleftrightarrow> 0 \<le> fst p \<and> fst p < GRID_SIZE \<and> 0 \<le> snd p \<and> snd p < GRID_SIZE"

definition adjacent :: "pos \<Rightarrow> pos \<Rightarrow> bool" where
  "adjacent u v \<longleftrightarrow> \<bar>fst u - fst v\<bar> + \<bar>snd u - snd v\<bar> = 1"

text \<open>
  \<open>walk W n p\<close>: there is a path of \<open>n\<close> edges from the start node to \<open>p\<close>, each step
  to a cell of the grid next to the last one that is not a wall (\<open>W\<close> tells the walls).
\<close>

inductive walk :: "(pos \<Rightarrow> bool) \<Rightarrow> nat \<Rightarrow> pos \<Rightarrow> bool" for W :: "pos \<Rightarrow> bool" where
  walk_start: "walk W 0 startNode"
| walk_step: "walk W n u \<Longrightarrow> adjacent u v \<Longrightarrow> inGrid v \<Longrightarrow> \<not> W v \<Longrightarrow> walk W (Suc n) v"

definition walls :: "Grid \<Rightarrow> pos \<Rightarrow> bool" where
  "walls g p \<longleftrightarrow> state (g p) = Wall"

text \<open>
  The grids that \<open>initializeGrid\<close> makes: the start node, and no other node of the
  grid, has the state \<open>Start\<close>, and likewise for the goal.
\<close>

definition wellFormed :: "Grid \<Rightarrow> bool" where
  "wellFormed g \<longleftrightarrow>
     (\<forall>p. inGrid p \<longrightarrow> (state (g p) = Start \<longleftrightarrow> p = startNode)
                      \<and> (state (g p) = Goal \<longleftrightarrow> p = goalNode))"

definition hfun :: "AlgorithmType \<Rightarrow> pos \<Rightarrow> nat" where
  "hfun alg p = (if alg = AStar then calculateHeuristic p goalNode else 0)"

text \<open>What one pass over the neighbors does to a node that is not closed.\<close>

definition relaxNode :: "AlgorithmType \<Rightarrow> pos \<Rightarrow> enat \<Rightarrow> pos \<Rightarrow> Node \<Rightarrow> Node" where
  "relaxNode alg current dc p node =
     (if dc + 1 < distance node then
        (if alg = AStar then
           node\<lparr>distance := dc + 1, heuristic := calculateHeuristic p goalNode,
                fScore := dc + 1 + enat (calculateHeuristic p goalNode), parent := Some current\<rparr>
         else node\<lparr>distance := dc + 1, parent := Some current\<rparr>)
      else node)"

text \<open>The four cells around a cell, in the order of \<open>directions\<close>.\<close>

definition shifted :: "pos \<Rightarrow> pos list" where
  "shifted u = map (\<lambda>(dx, dy). (fst u + dx, snd u + dy)) directions"

text \<open>The nodes that the search has met: those in the open set and those in the closed set.\<close>

definition discovered :: "SearchState \<Rightarrow> pos set" where
  "discovered s = set (openSet s) \<union> closedSet s"

text \<open>
  The invariant of the search loop, for the algorithm \<open>alg\<close> on a grid with the walls
  \<open>W\<close>, part by part. The states tell the walls, the start and the goal.
\<close>

definition invStates :: "(pos \<Rightarrow> bool) \<Rightarrow> SearchState \<Rightarrow> bool" where
  "invStates W s \<longleftrightarrow>
     (\<forall>p. inGrid p \<longrightarrow>
        (state (newGrid s p) = Wall \<longleftrightarrow> W p) \<and>
        (state (newGrid s p) = Start \<longleftrightarrow> p = startNode) \<and>
        (state (newGrid s p) = Goal \<longleftrightarrow> p = goalNode))"

text \<open>
  The open set has no node twice and none of the closed set; the discovered nodes are
  cells of the grid that are no walls.
\<close>

definition invOpen :: "(pos \<Rightarrow> bool) \<Rightarrow> SearchState \<Rightarrow> bool" where
  "invOpen W s \<longleftrightarrow>
     distinct (openSet s) \<and> set (openSet s) \<inter> closedSet s = {} \<and>
     (\<forall>p \<in> discovered s. inGrid p \<and> \<not> W p)"

text \<open>The start is discovered, has distance 0 and no parent.\<close>

definition invStart :: "SearchState \<Rightarrow> bool" where
  "invStart s \<longleftrightarrow>
     distance (newGrid s startNode) = 0 \<and> parent (newGrid s startNode) = None \<and>
     startNode \<in> discovered s"

text \<open>A node of the grid with a finite distance is discovered.\<close>

definition invFinite :: "SearchState \<Rightarrow> bool" where
  "invFinite s \<longleftrightarrow>
     (\<forall>p. inGrid p \<longrightarrow> distance (newGrid s p) \<noteq> \<infinity> \<longrightarrow> p \<in> discovered s)"

text \<open>
  The parent of a discovered node other than the start is a closed node next to it,
  with a distance one less.
\<close>

definition invParent :: "SearchState \<Rightarrow> bool" where
  "invParent s \<longleftrightarrow>
     (\<forall>p \<in> discovered s. p \<noteq> startNode \<longrightarrow>
        (\<exists>u. parent (newGrid s p) = Some u \<and> u \<in> closedSet s \<and> adjacent u p \<and>
             distance (newGrid s p) = distance (newGrid s u) + 1))"

text \<open>The distance of a discovered node is the length of a path to it.\<close>

definition invWalk :: "(pos \<Rightarrow> bool) \<Rightarrow> SearchState \<Rightarrow> bool" where
  "invWalk W s \<longleftrightarrow>
     (\<forall>p \<in> discovered s. \<exists>n. distance (newGrid s p) = enat n \<and> walk W n p)"

text \<open>No path to a closed node is shorter than its distance.\<close>

definition invOptimal :: "(pos \<Rightarrow> bool) \<Rightarrow> SearchState \<Rightarrow> bool" where
  "invOptimal W s \<longleftrightarrow>
     (\<forall>p \<in> closedSet s. \<forall>n. walk W n p \<longrightarrow> distance (newGrid s p) \<le> enat n)"

text \<open>
  While the path is not found, the free cells around a closed node are discovered and
  have at most its distance plus one.
\<close>

definition invRelaxed :: "(pos \<Rightarrow> bool) \<Rightarrow> SearchState \<Rightarrow> bool" where
  "invRelaxed W s \<longleftrightarrow>
     (\<not> pathFound s \<longrightarrow>
        (\<forall>u \<in> closedSet s. \<forall>v. adjacent u v \<longrightarrow> inGrid v \<longrightarrow> \<not> W v \<longrightarrow>
           v \<in> discovered s \<and> distance (newGrid s v) \<le> distance (newGrid s u) + 1))"

text \<open>For A* the \<open>fScore\<close> of an open node is its distance plus its heuristic.\<close>

definition invFScore :: "AlgorithmType \<Rightarrow> SearchState \<Rightarrow> bool" where
  "invFScore alg s \<longleftrightarrow>
     (alg = AStar \<longrightarrow>
        (\<forall>p \<in> set (openSet s).
           fScore (newGrid s p) = distance (newGrid s p) + enat (hfun alg p)))"

text \<open>The path is found when the goal is closed.\<close>

definition invFound :: "SearchState \<Rightarrow> bool" where
  "invFound s \<longleftrightarrow> (pathFound s \<longleftrightarrow> goalNode \<in> closedSet s)"

definition searchInv :: "AlgorithmType \<Rightarrow> (pos \<Rightarrow> bool) \<Rightarrow> SearchState \<Rightarrow> bool" where
  "searchInv alg W s \<longleftrightarrow>
     invStates W s \<and> invOpen W s \<and> invStart s \<and> invFinite s \<and> invParent s \<and>
     invWalk W s \<and> invOptimal W s \<and> invRelaxed W s \<and> invFScore alg s \<and> invFound s"

text \<open>
  The effect of an iteration that expands the node \<open>c\<close>: \<open>relaxedTo W s c p\<close> tells
  that the neighbor \<open>p\<close> gets a new distance, and \<open>expands alg W s c s'\<close> describes
  the state \<open>s'\<close> after the iteration field by field.
\<close>

definition relaxedTo :: "(pos \<Rightarrow> bool) \<Rightarrow> SearchState \<Rightarrow> pos \<Rightarrow> pos \<Rightarrow> bool" where
  "relaxedTo W s c p \<longleftrightarrow>
     adjacent c p \<and> inGrid p \<and> \<not> W p \<and> p \<notin> closedSet s \<and>
     distance (newGrid s c) + 1 < distance (newGrid s p)"

definition expands :: "AlgorithmType \<Rightarrow> (pos \<Rightarrow> bool) \<Rightarrow> SearchState \<Rightarrow> pos \<Rightarrow> SearchState \<Rightarrow> bool" where
  "expands alg W s c s' \<longleftrightarrow>
     closedSet s' = insert c (closedSet s) \<and>
     pathFound s' = pathFound s \<and>
     set (openSet s') = (set (openSet s) - {c}) \<union> {p. relaxedTo W s c p} \<and>
     distinct (openSet s') \<and>
     (\<forall>p. distance (newGrid s' p) =
            (if relaxedTo W s c p then distance (newGrid s c) + 1 else distance (newGrid s p)) \<and>
          parent (newGrid s' p) =
            (if relaxedTo W s c p then Some c else parent (newGrid s p)) \<and>
          (alg = AStar \<longrightarrow> fScore (newGrid s' p) =
            (if relaxedTo W s c p then distance (newGrid s c) + 1 + enat (hfun alg p)
             else fScore (newGrid s p))) \<and>
          state (newGrid s' p) =
            (if p = c \<and> state (newGrid s c) \<noteq> Start \<and> state (newGrid s c) \<noteq> Goal
             then Explored else state (newGrid s p)))"

text \<open>
  The invariant of the loop that reconstructs the path from the final state \<open>s\<close> of a
  search: the loop writes states only, and marks the nodes of \<open>path\<close>; \<open>path\<close> is a
  chain of parent links that ends in the goal; \<open>current\<close> is the parent of its first
  node, and the distance of \<open>current\<close> tells how many nodes are still to come.
\<close>

definition reconInv :: "SearchState \<Rightarrow> Grid \<times> pos option \<times> pos list \<Rightarrow> bool" where
  "reconInv s = (\<lambda>(gr, cur, path).
     (\<forall>p. parent (gr p) = parent (newGrid s p) \<and>
          state (gr p) = (if p \<in> set path \<and> state (newGrid s p) \<noteq> Start
                            \<and> state (newGrid s p) \<noteq> Goal
                          then Path else state (newGrid s p))) \<and>
     set path \<subseteq> discovered s \<and>
     (path \<noteq> [] \<longrightarrow> last path = goalNode) \<and>
     (\<forall>i. Suc i < length path \<longrightarrow> parent (newGrid s (path ! Suc i)) = Some (path ! i)) \<and>
     (case cur of
        Some c \<Rightarrow>
          c \<in> discovered s \<and> (path = [] \<longrightarrow> c = goalNode) \<and>
          (path \<noteq> [] \<longrightarrow> parent (newGrid s (hd path)) = Some c) \<and>
          distance (newGrid s c) + enat (length path) = distance (newGrid s goalNode)
      | None \<Rightarrow>
          path \<noteq> [] \<and> hd path = startNode \<and>
          enat (length path) = distance (newGrid s goalNode) + 1))"

definition reconMeasure :: "SearchState \<Rightarrow> Grid \<times> pos option \<times> pos list \<Rightarrow> nat" where
  "reconMeasure s = (\<lambda>(gr, cur, path).
     (case cur of None \<Rightarrow> 0 | Some c \<Rightarrow> Suc (the_enat (distance (newGrid s c)))))"

section \<open>The states of the component\<close>

text \<open>The statistics of the first render, and of \<open>resetGrid\<close>.\<close>

definition stats0 :: AlgorithmStats where
  "stats0 = \<lparr>nodesExplored = 0, pathLength = 0, executionTime = 0, optimalPath = False,
             efficiency = 0\<rparr>"

text \<open>The search of a run on the grid \<open>g\<close>: the reset, the state before the loop, the loop.\<close>

definition runSearch :: "AlgorithmType \<Rightarrow> Grid \<Rightarrow> SearchState option" where
  "runSearch alg g = searchLoop alg (initSearch alg (\<lambda>p. resetNode (g p)))"

text \<open>
  Ways in which the component gets to a state: the first render, the grid that the
  effect of the first render makes, a reset, and a run of \<open>runAlgorithm\<close> that nothing
  interferes with. A run waits on timers, and the Reset button stays enabled while it
  does. The last rule is a reset during the last wait of a run that has found the path
  (the wait after the last node of the path is shown): the reset writes the new grid
  and clears the statistics, and then the run, which calls \<open>setGrid\<close> no more, writes
  its statistics over them. Other interleavings are not listed.
\<close>

inductive reachableV :: "Visualizer \<Rightarrow> bool" where
  first_render: "reachableV \<lparr>grid = None, stats = stats0\<rparr>"
| mounted: "reachableV \<lparr>grid = Some (initializeGrid rnd), stats = stats0\<rparr>"
| reset: "reachableV v \<Longrightarrow> reachableV (resetGrid rnd v)"
| run: "reachableV v \<Longrightarrow> runAlgorithm alg elapsed v = Some v' \<Longrightarrow> reachableV v'"
| reset_in_last_wait:
    "reachableV v \<Longrightarrow> grid v = Some g \<Longrightarrow> alg = Dijkstra \<or> alg = AStar \<Longrightarrow>
     runSearch alg g = Some s \<Longrightarrow> pathFound s \<Longrightarrow>
     reconstructPath (newGrid s) = Some (g', path) \<Longrightarrow> p \<in> set path \<Longrightarrow>
     state (g' p) = Path \<Longrightarrow> runAlgorithm alg elapsed v = Some v' \<Longrightarrow>
     reachableV \<lparr>grid = Some (initializeGrid rnd), stats = stats v'\<rparr>"

subsection \<open>Example grids\<close>

text \<open>A grid without walls, and a grid with walls on the four cells around the start.\<close>

definition openField :: Visualizer where
  "openField = \<lparr>grid = Some (initializeGrid (\<lambda>p. False)), stats = stats0\<rparr>"




section \<open>The parser\<close>

lemma first_some_None: "(\<And>x. x \<in> set xs \<Longrightarrow> x = None) \<Longrightarrow> first_some xs = None"
  by (induction xs rule: first_some.induct) auto

text \<open>After the first \<open>$\<close> the input is over, and \<open>\d+\<close> wants a digit.\<close>

lemma match_here_Eos_Eos_Digits: "match_here (Eos # Eos # DigitsGroup # p) s = None"
  by (cases s) simp_all

lemma match_here_Lit_None: "(\<And>t. match_here p t = None) \<Longrightarrow> match_here (Lit c # p) s = None"
  by (cases s) simp_all

lemma match_here_forward_rx: "match_here forward_rx s = None"
  unfolding forward_rx_def js_def
  by (simp add: match_here_Lit_None match_here_Eos_Eos_Digits del: match_here.simps)

lemma js_match_forward_rx: "js_match forward_rx s = None"
  unfolding js_match_def by (rule first_some_None) (auto simp: match_here_forward_rx)

lemma js_cmd_neq [simp]:
  "js ''left'' \<noteq> js ''forward''" "js ''right'' \<noteq> js ''forward''"
  "js ''right'' \<noteq> js ''left''" "js ''forward'' \<noteq> js ''left''"
  "js ''forward'' \<noteq> js ''right''" "js ''left'' \<noteq> js ''right''"
  by (simp_all add: js_def)

lemma parse_line_no_forward:
  "js ''forward'' \<notin> set commands \<Longrightarrow> js ''forward'' \<notin> set (parse_line commands line)"
  by (simp add: parse_line_def Let_def js_match_forward_rx)

lemma foldl_parse_line_no_forward:
  "js ''forward'' \<notin> set commands \<Longrightarrow> js ''forward'' \<notin> set (foldl parse_line commands ls)"
  by (induction ls arbitrary: commands) (simp_all add: parse_line_no_forward)

text \<open>
  C10: the pattern for forward lines matches no line, whatever its text, and the list
  that \<open>parseCode\<close> returns never holds the command \<open>forward\<close>.
\<close>

theorem parseCode_emits_no_forward:
  "js_match forward_rx line = None \<and> js ''forward'' \<notin> set (parseCode code)"
  by (simp add: js_match_forward_rx parseCode_def foldl_parse_line_no_forward)

text \<open>
  C1: the script \<open>forward(5)\<close> should give five \<open>forward\<close> commands; \<open>parseCode\<close>
  returns the empty list for it.
\<close>

theorem parseCode_forward_5: "parseCode (js ''forward(5)'') = []"
  by (simp add: parseCode_def parse_line_def Let_def match_here_forward_rx js_def trim_def
      isWhiteSpace_def startsWith_def js_match_def left_rx_def right_rx_def)

section \<open>Turning\<close>

lemma executeCommand_left:
  "executeCommand (js ''left'') gs =
     (Success, gs\<lparr>agent := (agent gs)\<lparr>direction :=
                     num_dir ((dir_num (direction (agent gs)) + 3) mod 4)\<rparr>\<rparr>)"
  by (simp add: executeCommand_def)

lemma executeCommand_right:
  "executeCommand (js ''right'') gs =
     (Success, gs\<lparr>agent := (agent gs)\<lparr>direction :=
                     num_dir ((dir_num (direction (agent gs)) + 1) mod 4)\<rparr>\<rparr>)"
  by (simp add: executeCommand_def)

text \<open>
  C8: \<open>left\<close> and \<open>right\<close> always succeed; the number of the facing direction goes down
  by one modulo 4 on \<open>left\<close> and up by one modulo 4 on \<open>right\<close>; four \<open>left\<close> commands
  in a row give back the state they started from, and so do four \<open>right\<close> commands.
\<close>

theorem turn_left_right:
  "fst (executeCommand (js ''left'') gs) = Success \<and>
   fst (executeCommand (js ''right'') gs) = Success \<and>
   int (dir_num (direction (agent (snd (executeCommand (js ''left'') gs))))) =
     (int (dir_num (direction (agent gs))) - 1) mod 4 \<and>
   int (dir_num (direction (agent (snd (executeCommand (js ''right'') gs))))) =
     (int (dir_num (direction (agent gs))) + 1) mod 4 \<and>
   snd (executeCommand (js ''left'') (snd (executeCommand (js ''left'')
     (snd (executeCommand (js ''left'') (snd (executeCommand (js ''left'') gs))))))) = gs \<and>
   snd (executeCommand (js ''right'') (snd (executeCommand (js ''right'')
     (snd (executeCommand (js ''right'') (snd (executeCommand (js ''right'') gs))))))) = gs"
  by (cases "direction (agent gs)")
     (simp_all add: executeCommand_left executeCommand_right num_dir_def)

section \<open>Moving forward\<close>

lemma rectangular_row: "rectangular m \<Longrightarrow> i < length m \<Longrightarrow> length (m ! i) = length (hd m)"
  by (simp add: rectangular_def)

lemma isValidPosition_rectangular:
  assumes "rectangular (maze gs)"
  shows "isValidPosition gs r c \<longleftrightarrow> tile_at (maze gs) r c \<noteq> None"
proof (cases "0 \<le> r \<and> r < int (length (maze gs))")
  case True
  then have "nat r < length (maze gs)" by linarith
  from rectangular_row [OF assms this] True show ?thesis
    by (cases "maze gs") (auto simp: isValidPosition_def tile_at_def)
next
  case False
  then show ?thesis by (auto simp: isValidPosition_def tile_at_def)
qed

lemma getForwardPosition_cases:
  "getForwardPosition gs =
     (case direction (agent gs) of
        NORTH \<Rightarrow> (row (agent gs) - 1, col (agent gs))
      | EAST \<Rightarrow> (row (agent gs), col (agent gs) + 1)
      | SOUTH \<Rightarrow> (row (agent gs) + 1, col (agent gs))
      | WEST \<Rightarrow> (row (agent gs), col (agent gs) - 1))"
  by (cases "direction (agent gs)") (simp_all add: getForwardPosition_def deltas_def Let_def)

lemma js_msg_neq: "js ''Hit boundary!'' \<noteq> js ''Hit wall!''"
  by (simp add: js_def)

lemma executeCommand_forward:
  "executeCommand (js ''forward'') gs =
    (let (nr, nc) = getForwardPosition gs in
         if \<not> isValidPosition gs nr nc then (Failure (js ''Hit boundary!''), gs)
         else if tile_at (maze gs) nr nc = Some WALL then (Failure (js ''Hit wall!''), gs)
         else (Success,
               gs\<lparr>agent := (agent gs)\<lparr>row := nr, col := nc,
                                        totalSteps := totalSteps (agent gs) + 1\<rparr>\<rparr>))"
  by (simp add: executeCommand_def)

text \<open>
  C5: in a rectangular maze, \<open>forward\<close> takes its target from the facing direction
  (north: one row up, east: one column right, south: one row down, west: one column
  left). It fails with the boundary error exactly when the target is no cell of the
  grid and with the wall error exactly when the target is a wall; otherwise it succeeds,
  the agent stands on the target and has one step more. On a failure the state is the
  one before.
\<close>

theorem forward_step:
  assumes "rectangular (maze gs)"
      and "getForwardPosition gs = (nr, nc)"
      and "executeCommand (js ''forward'') gs = (res, gs')"
  shows "(nr, nc) = (case direction (agent gs) of
                       NORTH \<Rightarrow> (row (agent gs) - 1, col (agent gs))
                     | EAST \<Rightarrow> (row (agent gs), col (agent gs) + 1)
                     | SOUTH \<Rightarrow> (row (agent gs) + 1, col (agent gs))
                     | WEST \<Rightarrow> (row (agent gs), col (agent gs) - 1)) \<and>
         (res = Failure (js ''Hit boundary!'') \<longleftrightarrow> tile_at (maze gs) nr nc = None) \<and>
         (res = Failure (js ''Hit wall!'') \<longleftrightarrow> tile_at (maze gs) nr nc = Some WALL) \<and>
         (res = Success \<longleftrightarrow>
            tile_at (maze gs) nr nc \<noteq> None \<and> tile_at (maze gs) nr nc \<noteq> Some WALL) \<and>
         (res = Success \<longrightarrow>
            gs' = gs\<lparr>agent := (agent gs)\<lparr>row := nr, col := nc,
                                           totalSteps := totalSteps (agent gs) + 1\<rparr>\<rparr>) \<and>
         (res \<noteq> Success \<longrightarrow> gs' = gs)"
proof -
  have p: "(nr, nc) = (case direction (agent gs) of
                       NORTH \<Rightarrow> (row (agent gs) - 1, col (agent gs))
                     | EAST \<Rightarrow> (row (agent gs), col (agent gs) + 1)
                     | SOUTH \<Rightarrow> (row (agent gs) + 1, col (agent gs))
                     | WEST \<Rightarrow> (row (agent gs), col (agent gs) - 1))"
    using assms(2) by (simp add: getForwardPosition_cases)
  note v = isValidPosition_rectangular [OF assms(1), of nr nc]
  note e = assms(3) [unfolded executeCommand_forward assms(2), simplified]
  have b: "res = Failure (js ''Hit boundary!'') \<longleftrightarrow> tile_at (maze gs) nr nc = None"
    using e v js_msg_neq by (auto split: if_splits)
  have w: "res = Failure (js ''Hit wall!'') \<longleftrightarrow> tile_at (maze gs) nr nc = Some WALL"
    using e v js_msg_neq by (auto split: if_splits)
  have s: "res = Success \<longleftrightarrow>
             tile_at (maze gs) nr nc \<noteq> None \<and> tile_at (maze gs) nr nc \<noteq> Some WALL"
    using e v by (auto split: if_splits)
  have m: "res = Success \<longrightarrow>
             gs' = gs\<lparr>agent := (agent gs)\<lparr>row := nr, col := nc,
                                            totalSteps := totalSteps (agent gs) + 1\<rparr>\<rparr>"
    using e by (auto split: if_splits)
  have u: "res \<noteq> Success \<longrightarrow> gs' = gs"
    using e by (auto split: if_splits)
  from p b w s m u show ?thesis by blast
qed

lemma yard_rectangular: "rectangular (maze (yard d))"
  by (simp add: yard_def rectangular_def)

theorem forward_step_witness:
  "rectangular (maze (yard SOUTH)) \<and>
   executeCommand (js ''forward'') (yard SOUTH) =
     (Success, (yard SOUTH)\<lparr>agent := (agent (yard SOUTH))\<lparr>row := 1, col := 0,
                                                          totalSteps := 1\<rparr>\<rparr>) \<and>
   tile_at (maze (yard SOUTH)) 1 0 = Some GOAL \<and>
   executeCommand (js ''forward'') (yard EAST) = (Failure (js ''Hit wall!''), yard EAST) \<and>
   tile_at (maze (yard EAST)) 0 1 = Some WALL \<and>
   executeCommand (js ''forward'') (yard NORTH) = (Failure (js ''Hit boundary!''), yard NORTH) \<and>
   tile_at (maze (yard NORTH)) (-1) 0 = None"
proof -
  have ts: "tile_at (maze (yard SOUTH)) 1 0 = Some GOAL"
    and te: "tile_at (maze (yard EAST)) 0 1 = Some WALL"
    and tn: "tile_at (maze (yard NORTH)) (-1) 0 = None"
    by (simp_all add: yard_def tile_at_def)
  have ps: "getForwardPosition (yard SOUTH) = (1, 0)"
    and pe: "getForwardPosition (yard EAST) = (0, 1)"
    and pn: "getForwardPosition (yard NORTH) = (-1, 0)"
    by (simp_all add: getForwardPosition_cases yard_def)
  obtain rs gs where es: "executeCommand (js ''forward'') (yard SOUTH) = (rs, gs)"
    by (cases "executeCommand (js ''forward'') (yard SOUTH)")
  obtain re ge where ee: "executeCommand (js ''forward'') (yard EAST) = (re, ge)"
    by (cases "executeCommand (js ''forward'') (yard EAST)")
  obtain rn gn where en: "executeCommand (js ''forward'') (yard NORTH) = (rn, gn)"
    by (cases "executeCommand (js ''forward'') (yard NORTH)")
  from forward_step [OF yard_rectangular ps es] ts
  have "rs = Success \<and> gs = (yard SOUTH)\<lparr>agent := (agent (yard SOUTH))\<lparr>row := 1, col := 0,
                                                          totalSteps := 1\<rparr>\<rparr>"
    by (simp add: yard_def)
  moreover from forward_step [OF yard_rectangular pe ee] te
  have "re = Failure (js ''Hit wall!'') \<and> ge = yard EAST" by auto
  moreover from forward_step [OF yard_rectangular pn en] tn
  have "rn = Failure (js ''Hit boundary!'') \<and> gn = yard NORTH" by auto
  ultimately show ?thesis using es ee en ts te tn yard_rectangular by simp
qed

section \<open>The agent never leaves the free cells\<close>

lemma agent_ok_direction [simp]:
  "agent_ok (gs\<lparr>agent := (agent gs)\<lparr>direction := d\<rparr>\<rparr>) = agent_ok gs"
  by (simp add: agent_ok_def isValidPosition_def)

lemma executeCommand_unknown:
  "c \<noteq> js ''forward'' \<Longrightarrow> c \<noteq> js ''left'' \<Longrightarrow> c \<noteq> js ''right'' \<Longrightarrow>
     executeCommand c gs = (Failure (js ''Unknown command: '' @ c), gs)"
  by (simp add: executeCommand_def)

lemma executeCommand_agent_ok:
  assumes "agent_ok gs"
  shows "agent_ok (snd (executeCommand c gs))"
proof -
  consider "c = js ''forward''" | "c = js ''left''" | "c = js ''right''"
    | "c \<noteq> js ''forward''" "c \<noteq> js ''left''" "c \<noteq> js ''right''" by blast
  then show ?thesis
  proof cases
    case 1
    obtain nr nc where p: "getForwardPosition gs = (nr, nc)"
      by (cases "getForwardPosition gs")
    show ?thesis
    proof (cases "isValidPosition gs nr nc \<and> tile_at (maze gs) nr nc \<noteq> Some WALL")
      case True
      then show ?thesis unfolding 1 executeCommand_forward p
        by (simp add: agent_ok_def isValidPosition_def)
    next
      case False
      then show ?thesis using assms unfolding 1 executeCommand_forward p by auto
    qed
  next
    case 2
    then show ?thesis using assms by (simp add: executeCommand_left)
  next
    case 3
    then show ?thesis using assms by (simp add: executeCommand_right)
  next
    case 4
    then show ?thesis using assms by (simp add: executeCommand_unknown)
  qed
qed

lemma agent_ok_push_output [simp]: "agent_ok (push_output l gs) = agent_ok gs"
  by (simp add: agent_ok_def push_output_def isValidPosition_def)

lemma agent_ok_isComplete [simp]: "agent_ok (gs\<lparr>isComplete := b\<rparr>) = agent_ok gs"
  by (simp add: agent_ok_def isValidPosition_def)

lemma agent_ok_output_log [simp]: "agent_ok (gs\<lparr>output_log := b\<rparr>) = agent_ok gs"
  by (simp add: agent_ok_def isValidPosition_def)

lemma exec_loop_agent_ok:
  "agent_ok gs \<Longrightarrow>
   (case exec_loop cs gs of Inl r \<Rightarrow> agent_ok (snd r) | Inr gs' \<Rightarrow> agent_ok gs')"
proof (induction cs arbitrary: gs)
  case Nil
  then show ?case by simp
next
  case (Cons c cs)
  obtain res gs' where e: "executeCommand c gs = (res, gs')" by (cases "executeCommand c gs")
  with Cons.prems executeCommand_agent_ok [of gs c] have ok: "agent_ok gs'" by simp
  show ?case
  proof (cases res)
    case Success
    with e ok Cons.prems Cons.IH [OF ok] show ?thesis by (simp add: finish_def)
  next
    case (Failure x)
    with e ok Cons.prems show ?thesis by (simp add: finish_def)
  qed
qed

text \<open>
  C7: when the agent stands on a cell of the grid that is not a wall, it still does
  after any single command, and after the run of any list of commands (so after every
  command of a run, the first \<open>n\<close> commands being such a list).
\<close>

theorem agent_stays_on_free_cells:
  "agent_ok gs \<Longrightarrow>
     agent_ok (snd (executeCommand c gs)) \<and> agent_ok (snd (runCommands cs gs))"
proof
  assume a: "agent_ok gs"
  then show "agent_ok (snd (executeCommand c gs))" by (rule executeCommand_agent_ok)
  from a have "agent_ok (gs\<lparr>output_log := [], isComplete := False\<rparr>)" by simp
  from exec_loop_agent_ok [OF this, of cs]
  show "agent_ok (snd (runCommands cs gs))"
    by (auto simp: runCommands_def finish_def split: sum.splits)
qed

theorem agent_stays_on_free_cells_witness:
  "agent_ok (yard SOUTH) \<and>
   agent_ok (snd (executeCommand (js ''forward'') (yard SOUTH))) \<and>
   agent_ok (snd (runCommands [js ''left'', js ''forward'', js ''right''] (yard SOUTH)))"
proof -
  have "agent_ok (yard SOUTH)"
    by (simp add: agent_ok_def yard_def isValidPosition_def tile_at_def)
  with agent_stays_on_free_cells [of "yard SOUTH" "js ''forward''"
      "[js ''left'', js ''forward'', js ''right'']"]
  show ?thesis by simp
qed

section \<open>The loop of executeCode\<close>

lemma exec_loop_append:
  "exec_loop (pre @ cs) gs = (case exec_loop pre gs of Inl r \<Rightarrow> Inl r | Inr gs1 \<Rightarrow> exec_loop cs gs1)"
  by (induction pre arbitrary: gs) (auto split: prod.splits CommandResult.splits)

lemma executeCommand_output:
  "output_log (snd (executeCommand c gs)) = output_log gs \<and>
   isComplete (snd (executeCommand c gs)) = isComplete gs"
  by (auto simp: executeCommand_def split: prod.splits)

lemma exec_loop_Inr_output:
  "exec_loop cs gs = Inr gs1 \<Longrightarrow>
     output_log gs1 = output_log gs \<and> isComplete gs1 = isComplete gs"
proof (induction cs arbitrary: gs)
  case Nil
  then show ?case by simp
next
  case (Cons c cs)
  obtain res gs' where e: "executeCommand c gs = (res, gs')" by (cases "executeCommand c gs")
  from executeCommand_output [of c gs] e
  have o: "output_log gs' = output_log gs \<and> isComplete gs' = isComplete gs" by simp
  from Cons.prems e have "exec_loop cs gs' = Inr gs1"
    by (cases res) (auto split: if_splits)
  from Cons.IH [OF this] o show ?case by simp
qed

text \<open>
  C4: when the commands \<open>pre\<close> have run without ending the loop, the next command \<open>c\<close>
  is executed with success and the agent then stands on the goal, the run ends there
  with \<open>success = True\<close>: the result and the final state are those reached after \<open>c\<close>,
  with the one log line of the goal, whatever commands \<open>rest\<close> are still queued.
\<close>

theorem goal_short_circuit:
  assumes "exec_loop pre (gs\<lparr>output_log := [], isComplete := False\<rparr>) = Inr gs1"
      and "totalSteps (agent gs1) < maxSteps"
      and "executeCommand c gs1 = (Success, gs2)"
      and "isAtGoal gs2"
  shows "runCommands (pre @ c # rest) gs =
           (\<lparr>success = True, steps = totalSteps (agent gs2), result_output = [msg_goal]\<rparr>,
            gs2\<lparr>output_log := [msg_goal], isComplete := True\<rparr>)"
proof -
  from exec_loop_Inr_output [OF assms(1)] have "output_log gs1 = []" by simp
  with executeCommand_output [of c gs1] assms(3) have "output_log gs2 = []" by simp
  with assms show ?thesis
    by (simp add: runCommands_def exec_loop_append finish_def push_output_def)
qed

theorem goal_short_circuit_witness:
  "runCommands ([js ''left'', js ''right''] @ js ''forward'' # [js ''forward'', js ''left''])
     (yard SOUTH) =
     (\<lparr>success = True, steps = 1, result_output = [msg_goal]\<rparr>,
      (yard SOUTH)\<lparr>agent := \<lparr>row = 1, col = 0, direction = SOUTH, totalSteps = 1\<rparr>,
                    output_log := [msg_goal], isComplete := True\<rparr>)"
proof -
  let ?g2 = "(yard SOUTH)\<lparr>agent := \<lparr>row = 1, col = 0, direction = SOUTH, totalSteps = 1\<rparr>\<rparr>"
  have 1: "exec_loop [js ''left'', js ''right'']
             ((yard SOUTH)\<lparr>output_log := [], isComplete := False\<rparr>) = Inr (yard SOUTH)"
    by (simp add: executeCommand_left executeCommand_right yard_def maxSteps_def
        isAtGoal_def num_dir_def)
  have 2: "totalSteps (agent (yard SOUTH)) < maxSteps"
    by (simp add: yard_def maxSteps_def)
  have 3: "executeCommand (js ''forward'') (yard SOUTH) = (Success, ?g2)"
    by (simp add: executeCommand_forward getForwardPosition_cases yard_def
        isValidPosition_def tile_at_def)
  have 4: "isAtGoal ?g2" by (simp add: isAtGoal_def yard_def)
  from goal_short_circuit [OF 1 2 3 4, of "[js ''forward'', js ''left'']"]
  show ?thesis by simp
qed

section \<open>A script of more than 100 steps\<close>







text \<open>
  The loop of \<open>executeCode\<close>, given the commands that the script stands for, on level 1:
  the agent walks along row 1 to the east wall and back four times, and on the fifth
  way east the guard of the loop stops the run before the 101st step.
\<close>

lemma turnaroundCommands_run:
  "runCommands turnaroundCommands (resetState 1) =
     (\<lparr>success = False, steps = 100, result_output = [msg_max_steps]\<rparr>,
      (resetState 1)\<lparr>agent := \<lparr>row = 1, col = 5, direction = EAST, totalSteps = 100\<rparr>,
                       output_log := [msg_max_steps]\<rparr>)"
  by code_simp


section \<open>Cells, neighbors and the pass over the neighbors\<close>

lemma inGrid_start: "inGrid startNode"
  by (simp add: inGrid_def startNode_def GRID_SIZE_def)

lemma inGrid_goal: "inGrid goalNode"
  by (simp add: inGrid_def goalNode_def GRID_SIZE_def)


lemma adjacent_neq: "adjacent u v \<Longrightarrow> u \<noteq> v"
  unfolding adjacent_def by (rule notI) simp

lemma adjacent_sym: "adjacent u v \<Longrightarrow> adjacent v u"
  by (simp add: adjacent_def abs_minus_commute)

lemma adjacent_iff:
  "adjacent u v \<longleftrightarrow> v = (fst u - 1, snd u) \<or> v = (fst u + 1, snd u) \<or>
                    v = (fst u, snd u - 1) \<or> v = (fst u, snd u + 1)"
proof (cases u, cases v)
  fix a b c d :: int
  assume u: "u = (a, b)" and v: "v = (c, d)"
  show ?thesis unfolding u v adjacent_def fst_conv snd_conv prod.inject by presburger
qed

lemma concat_map_filter_single:
  "concat (map (\<lambda>d. filter P [f d]) ds) = filter P (map f ds)"
  by (induction ds) simp_all

lemma getNeighbors_filter:
  "getNeighbors u g = filter (\<lambda>v. inGrid v \<and> state (g v) \<noteq> Wall) (shifted u)"
proof -
  let ?P = "\<lambda>v. inGrid v \<and> state (g v) \<noteq> Wall"
  let ?f = "\<lambda>(dx, dy). (fst u + dx, snd u + dy)"
  have "getNeighbors u g = concat (map (\<lambda>d. filter ?P [?f d]) directions)"
    unfolding getNeighbors_def
    by (rule arg_cong [where f = concat], rule map_cong [OF refl])
       (simp add: inGrid_def Let_def split: prod.splits)
  then show ?thesis by (simp only: concat_map_filter_single shifted_def)
qed

lemma set_shifted: "set (shifted u) = {v. adjacent u v}"
  by (auto simp: shifted_def directions_def adjacent_iff)

lemma distinct_shifted: "distinct (shifted u)"
  by (simp add: shifted_def directions_def)

lemma set_getNeighbors:
  "set (getNeighbors u g) = {v. adjacent u v \<and> inGrid v \<and> state (g v) \<noteq> Wall}"
  by (auto simp: getNeighbors_filter set_shifted)

lemma distinct_getNeighbors: "distinct (getNeighbors u g)"
  by (simp add: getNeighbors_filter distinct_shifted)

lemma hfun_consistent: "adjacent u v \<Longrightarrow> hfun alg u \<le> hfun alg v + 1"
proof (cases "alg = AStar")
  case False
  then show ?thesis by (simp add: hfun_def)
next
  case True
  assume "adjacent u v"
  then have "\<bar>fst u - fst v\<bar> + \<bar>snd u - snd v\<bar> = 1" by (simp add: adjacent_def)
  then have "nat (\<bar>fst u - fst goalNode\<bar> + \<bar>snd u - snd goalNode\<bar>)
             \<le> nat (\<bar>fst v - fst goalNode\<bar> + \<bar>snd v - snd goalNode\<bar>) + 1"
    by linarith
  with True show ?thesis by (simp add: hfun_def calculateHeuristic_def)
qed

lemma relax_closed [simp]:
  "closedSet (relax alg c s n) = closedSet s" "explored (relax alg c s n) = explored s"
  "pathFound (relax alg c s n) = pathFound s"
  by (simp_all add: relax_def Let_def)

lemma relax_grid:
  "c \<in> closedSet s \<Longrightarrow>
   newGrid (relax alg c s n) =
     (if n \<in> closedSet s then newGrid s
      else (newGrid s)(n := relaxNode alg c (distance (newGrid s c)) n (newGrid s n)))"
  by (auto simp: relax_def Let_def relaxNode_def fun_eq_iff)

lemma relax_open:
  "set (openSet (relax alg c s n)) =
     set (openSet s) \<union> {p. p = n \<and> n \<notin> closedSet s \<and> distance (newGrid s c) + 1 < distance (newGrid s n)}"
  by (auto simp: relax_def Let_def)

lemma relax_distinct: "distinct (openSet s) \<Longrightarrow> distinct (openSet (relax alg c s n))"
  by (auto simp: relax_def Let_def)

lemma fold_relax:
  assumes "c \<in> closedSet s" "distinct ns"
  shows "closedSet (foldl (relax alg c) s ns) = closedSet s \<and>
         explored (foldl (relax alg c) s ns) = explored s \<and>
         pathFound (foldl (relax alg c) s ns) = pathFound s \<and>
         newGrid (foldl (relax alg c) s ns) =
           (\<lambda>p. if p \<in> set ns \<and> p \<notin> closedSet s
                then relaxNode alg c (distance (newGrid s c)) p (newGrid s p)
                else newGrid s p) \<and>
         set (openSet (foldl (relax alg c) s ns)) =
           set (openSet s) \<union> {p \<in> set ns. p \<notin> closedSet s \<and>
                                  distance (newGrid s c) + 1 < distance (newGrid s p)} \<and>
         (distinct (openSet s) \<longrightarrow> distinct (openSet (foldl (relax alg c) s ns)))"
  using assms
proof (induction ns arbitrary: s)
  case Nil
  then show ?case by simp
next
  case (Cons n ns)
  let ?s1 = "relax alg c s n"
  let ?t = "foldl (relax alg c) ?s1 ns"
  let ?dc = "distance (newGrid s c)"
  have c1: "c \<in> closedSet ?s1" using Cons.prems by simp
  have d1: "distinct ns" and nn: "n \<notin> set ns" using Cons.prems by simp_all
  note g1 = relax_grid [OF Cons.prems(1), of alg n]
  have dc: "distance (newGrid ?s1 c) = ?dc"
    using Cons.prems(1) by (auto simp: g1)
  have same: "newGrid ?s1 p = newGrid s p" if "p \<noteq> n" for p
    using that by (simp add: g1)
  note IH = Cons.IH [OF c1 d1, unfolded dc relax_closed]
  have 1: "closedSet ?t = closedSet s" using IH by blast
  have 2: "explored ?t = explored s" using IH by blast
  have 3: "pathFound ?t = pathFound s" using IH by blast
  have 4: "newGrid ?t = (\<lambda>p. if p \<in> set ns \<and> p \<notin> closedSet s
                then relaxNode alg c ?dc p (newGrid ?s1 p) else newGrid ?s1 p)"
    using IH by blast
  have 5: "set (openSet ?t) = set (openSet ?s1) \<union> {p \<in> set ns. p \<notin> closedSet s \<and>
                                  ?dc + 1 < distance (newGrid ?s1 p)}"
    using IH by blast
  have 6: "distinct (openSet ?s1) \<longrightarrow> distinct (openSet ?t)" using IH by blast
  have g4: "newGrid ?t = (\<lambda>p. if p \<in> set (n # ns) \<and> p \<notin> closedSet s
                then relaxNode alg c ?dc p (newGrid s p) else newGrid s p)"
  proof
    fix p
    show "newGrid ?t p = (if p \<in> set (n # ns) \<and> p \<notin> closedSet s
                then relaxNode alg c ?dc p (newGrid s p) else newGrid s p)"
    proof (cases "p = n")
      case True
      with nn show ?thesis by (simp add: 4 g1)
    next
      case False
      then show ?thesis by (simp add: 4 same)
    qed
  qed
  have "{p \<in> set ns. p \<notin> closedSet s \<and> ?dc + 1 < distance (newGrid ?s1 p)}
        = {p \<in> set ns. p \<notin> closedSet s \<and> ?dc + 1 < distance (newGrid s p)}"
    using nn same by (intro Collect_cong) (metis (full_types))
  then have o5: "set (openSet ?t) = set (openSet s) \<union> {p \<in> set (n # ns). p \<notin> closedSet s \<and>
                                  ?dc + 1 < distance (newGrid s p)}"
    unfolding 5 relax_open by auto
  have d6: "distinct (openSet s) \<longrightarrow> distinct (openSet ?t)"
    using 6 relax_distinct [of s alg c n] by blast
  show ?case unfolding foldl_Cons using 1 2 3 g4 o5 d6 by blast
qed

section \<open>Reading the invariant\<close>

lemma inv_states:
  "searchInv alg W s \<Longrightarrow> inGrid p \<Longrightarrow>
     (state (newGrid s p) = Wall \<longleftrightarrow> W p) \<and>
     (state (newGrid s p) = Start \<longleftrightarrow> p = startNode) \<and>
     (state (newGrid s p) = Goal \<longleftrightarrow> p = goalNode)"
  unfolding searchInv_def invStates_def by blast

lemma inv_distinct: "searchInv alg W s \<Longrightarrow> distinct (openSet s)"
  unfolding searchInv_def invOpen_def by blast

lemma inv_disjoint: "searchInv alg W s \<Longrightarrow> p \<in> set (openSet s) \<Longrightarrow> p \<notin> closedSet s"
  unfolding searchInv_def invOpen_def by blast

lemma inv_free: "searchInv alg W s \<Longrightarrow> p \<in> discovered s \<Longrightarrow> inGrid p \<and> \<not> W p"
  unfolding searchInv_def invOpen_def by blast

lemma inv_start:
  "searchInv alg W s \<Longrightarrow>
     distance (newGrid s startNode) = 0 \<and> parent (newGrid s startNode) = None \<and>
     startNode \<in> discovered s"
  unfolding searchInv_def invStart_def by blast

lemma inv_finite:
  "searchInv alg W s \<Longrightarrow> inGrid p \<Longrightarrow> distance (newGrid s p) \<noteq> \<infinity> \<Longrightarrow> p \<in> discovered s"
  unfolding searchInv_def invFinite_def by blast

lemma inv_parent:
  "searchInv alg W s \<Longrightarrow> p \<in> discovered s \<Longrightarrow> p \<noteq> startNode \<Longrightarrow>
     \<exists>u. parent (newGrid s p) = Some u \<and> u \<in> closedSet s \<and> adjacent u p \<and>
         distance (newGrid s p) = distance (newGrid s u) + 1"
  unfolding searchInv_def invParent_def by blast

lemma inv_walk:
  "searchInv alg W s \<Longrightarrow> p \<in> discovered s \<Longrightarrow> \<exists>n. distance (newGrid s p) = enat n \<and> walk W n p"
  unfolding searchInv_def invWalk_def by blast

lemma inv_optimal:
  "searchInv alg W s \<Longrightarrow> p \<in> closedSet s \<Longrightarrow> walk W n p \<Longrightarrow> distance (newGrid s p) \<le> enat n"
  unfolding searchInv_def invOptimal_def by blast

lemma inv_relaxed:
  "searchInv alg W s \<Longrightarrow> \<not> pathFound s \<Longrightarrow> u \<in> closedSet s \<Longrightarrow> adjacent u v \<Longrightarrow>
     inGrid v \<Longrightarrow> \<not> W v \<Longrightarrow>
     v \<in> discovered s \<and> distance (newGrid s v) \<le> distance (newGrid s u) + 1"
  unfolding searchInv_def invRelaxed_def by blast

lemma inv_fScore:
  "searchInv alg W s \<Longrightarrow> alg = AStar \<Longrightarrow> p \<in> set (openSet s) \<Longrightarrow>
     fScore (newGrid s p) = distance (newGrid s p) + enat (hfun alg p)"
  unfolding searchInv_def invFScore_def by blast

lemma inv_found: "searchInv alg W s \<Longrightarrow> pathFound s \<longleftrightarrow> goalNode \<in> closedSet s"
  unfolding searchInv_def invFound_def by blast

lemma inv_sortKey:
  assumes "searchInv alg W s" "p \<in> set (openSet s)"
  shows "sortKey alg (newGrid s) p = distance (newGrid s p) + enat (hfun alg p)"
proof (cases "alg = AStar")
  case True
  with inv_fScore [OF assms(1) True assms(2)] show ?thesis by (simp add: sortKey_def)
next
  case False
  then show ?thesis by (simp add: sortKey_def hfun_def zero_enat_def [symmetric])
qed

section \<open>The node with the least key has its shortest distance\<close>

lemma frontier:
  assumes inv: "searchInv alg W s" and nf: "\<not> pathFound s" and w: "walk W n v"
  shows "(v \<in> closedSet s \<and> distance (newGrid s v) \<le> enat n) \<or>
         (\<exists>x \<in> set (openSet s).
            distance (newGrid s x) + enat (hfun alg x) \<le> enat n + enat (hfun alg v))"
  using w
proof (induction rule: walk.induct)
  case walk_start
  from inv_start [OF inv] have d0: "distance (newGrid s startNode) = 0"
    and ds: "startNode \<in> discovered s" by simp_all
  show ?case
  proof (cases "startNode \<in> closedSet s")
    case True
    with d0 show ?thesis by simp
  next
    case False
    with ds have "startNode \<in> set (openSet s)" by (simp add: discovered_def)
    moreover from d0 have "distance (newGrid s startNode) + enat (hfun alg startNode)
                           \<le> enat 0 + enat (hfun alg startNode)"
      by (simp add: zero_enat_def)
    ultimately show ?thesis by blast
  qed
next
  case (walk_step n u v)
  from walk_step.IH show ?case
  proof
    assume c: "u \<in> closedSet s \<and> distance (newGrid s u) \<le> enat n"
    from inv_relaxed [OF inv nf _ walk_step.hyps(2,3,4)] c
    have dv: "v \<in> discovered s" and le: "distance (newGrid s v) \<le> distance (newGrid s u) + 1"
      by simp_all
    from le c have le': "distance (newGrid s v) \<le> enat (Suc n)"
      by (metis add_right_mono order_trans eSuc_enat plus_1_eSuc(2))
    show ?thesis
    proof (cases "v \<in> closedSet s")
      case True
      with le' show ?thesis by simp
    next
      case False
      with dv have "v \<in> set (openSet s)" by (simp add: discovered_def)
      moreover from le' have "distance (newGrid s v) + enat (hfun alg v)
                              \<le> enat (Suc n) + enat (hfun alg v)"
        by (rule add_right_mono)
      ultimately show ?thesis by blast
    qed
  next
    assume "\<exists>x \<in> set (openSet s).
              distance (newGrid s x) + enat (hfun alg x) \<le> enat n + enat (hfun alg u)"
    then obtain x where x: "x \<in> set (openSet s)"
      and le: "distance (newGrid s x) + enat (hfun alg x) \<le> enat n + enat (hfun alg u)"
      by blast
    from hfun_consistent [OF walk_step.hyps(2), of alg]
    have "enat n + enat (hfun alg u) \<le> enat (Suc n) + enat (hfun alg v)" by simp
    with le x show ?thesis by (meson order_trans)
  qed
qed

lemma least_key_optimal:
  assumes inv: "searchInv alg W s" and nf: "\<not> pathFound s"
    and c: "c \<in> set (openSet s)"
    and least: "\<forall>x \<in> set (openSet s). sortKey alg (newGrid s) c \<le> sortKey alg (newGrid s) x"
    and w: "walk W n c"
  shows "distance (newGrid s c) \<le> enat n"
proof -
  from inv_disjoint [OF inv c] frontier [OF inv nf w]
  obtain x where x: "x \<in> set (openSet s)"
    and le: "distance (newGrid s x) + enat (hfun alg x) \<le> enat n + enat (hfun alg c)"
    by blast
  from least x have "sortKey alg (newGrid s) c \<le> sortKey alg (newGrid s) x" by blast
  then have "distance (newGrid s c) + enat (hfun alg c)
             \<le> distance (newGrid s x) + enat (hfun alg x)"
    by (simp add: inv_sortKey [OF inv c] inv_sortKey [OF inv x])
  with le have "distance (newGrid s c) + enat (hfun alg c) \<le> enat n + enat (hfun alg c)"
    by (meson order_trans)
  then show ?thesis by (cases "distance (newGrid s c)") simp_all
qed

section \<open>One iteration\<close>

lemma sort_key_head:
  assumes "sort_key f xs = c # rest" "distinct xs"
  shows "c \<in> set xs \<and> set rest = set xs - {c} \<and> distinct rest \<and> (\<forall>x \<in> set xs. f c \<le> f x)"
proof -
  have s: "set (c # rest) = set xs" using assms(1) set_sort [of f xs] by simp
  have d: "distinct (c # rest)" using assms distinct_sort [of f xs] by simp
  have "sorted (map f (c # rest))" using assms(1) sorted_sort_key [of f xs] by simp
  then have le: "\<forall>x \<in> set rest. f c \<le> f x" by simp
  from s have 1: "c \<in> set xs" by auto
  from s d have 2: "set rest = set xs - {c}" by auto
  from d have 3: "distinct rest" by simp
  from le s have 4: "\<forall>x \<in> set xs. f c \<le> f x" by auto
  from 1 2 3 4 show ?thesis by blast
qed

lemma markNode_fields [simp]:
  "distance (markNode st c g p) = distance (g p)"
  "parent (markNode st c g p) = parent (g p)"
  "fScore (markNode st c g p) = fScore (g p)"
  "heuristic (markNode st c g p) = heuristic (g p)"
  by (simp_all add: markNode_def)

lemma markNode_state:
  "state (markNode st c g p) =
     (if p = c \<and> state (g c) \<noteq> Start \<and> state (g c) \<noteq> Goal then st else state (g p))"
  by (simp add: markNode_def)

lemma relaxNode_fields:
  "distance (relaxNode alg c dc p n) = (if dc + 1 < distance n then dc + 1 else distance n)"
  "parent (relaxNode alg c dc p n) = (if dc + 1 < distance n then Some c else parent n)"
  "state (relaxNode alg c dc p n) = state n"
  "alg = AStar \<Longrightarrow> fScore (relaxNode alg c dc p n) =
     (if dc + 1 < distance n then dc + 1 + enat (hfun alg p) else fScore n)"
  by (simp_all add: relaxNode_def hfun_def)

lemma searchStep_goal:
  "sort_key (sortKey alg (newGrid s)) (openSet s) = c # rest \<Longrightarrow> c = goalNode \<Longrightarrow>
     searchStep alg s = s\<lparr>openSet := rest, closedSet := insert c (closedSet s), pathFound := True\<rparr>"
  by (simp add: searchStep_def)

lemma searchStep_expands:
  assumes inv: "searchInv alg W s"
    and srt: "sort_key (sortKey alg (newGrid s)) (openSet s) = c # rest"
    and ng: "c \<noteq> goalNode"
  shows "expands alg W s c (searchStep alg s)"
proof -
  let ?g = "newGrid s"
  let ?cl = "insert c (closedSet s)"
  let ?g1 = "markNode Exploring c ?g"
  let ?ns = "getNeighbors c ?g1"
  define s2 where
    "s2 = s\<lparr>openSet := rest, closedSet := ?cl, newGrid := ?g1, explored := explored s + 1\<rparr>"
  define s3 where "s3 = foldl (relax alg c) s2 ?ns"
  have s2f: "closedSet s2 = ?cl" "newGrid s2 = ?g1" "openSet s2 = rest"
    "pathFound s2 = pathFound s"
    by (simp_all add: s2_def)
  have step: "searchStep alg s = s3\<lparr>newGrid := markNode Explored c (newGrid s3)\<rparr>"
    using srt ng by (simp add: searchStep_def Let_def s2_def s3_def)
  from sort_key_head [OF srt inv_distinct [OF inv]]
  have c_open: "c \<in> set (openSet s)" and rest: "set rest = set (openSet s) - {c}"
    and drest: "distinct rest" by blast+
  from c_open have c_disc: "c \<in> discovered s" by (simp add: discovered_def)
  from inv_free [OF inv c_disc] have c_in: "inGrid c" and c_free: "\<not> W c" by simp_all
  from inv_states [OF inv c_in] c_free have c_nowall: "state (?g c) \<noteq> Wall" by simp
  have nb: "p \<in> set ?ns \<longleftrightarrow> adjacent c p \<and> inGrid p \<and> \<not> W p" for p
  proof (cases "inGrid p")
    case True
    from inv_states [OF inv True] c_nowall
    have "state (?g1 p) \<noteq> Wall \<longleftrightarrow> \<not> W p" by (auto simp: markNode_state)
    then show ?thesis by (simp add: set_getNeighbors)
  next
    case False
    then show ?thesis by (simp add: set_getNeighbors)
  qed
  have rt: "relaxedTo W s c p \<longleftrightarrow>
              p \<in> set ?ns \<and> p \<notin> ?cl \<and> distance (?g1 c) + 1 < distance (?g1 p)" for p
    using adjacent_neq [of c p] by (auto simp: relaxedTo_def nb)
  have "c \<in> closedSet s2" by (simp add: s2f)
  note F = fold_relax [OF this distinct_getNeighbors [of c ?g1], of alg,
      folded s3_def, unfolded s2f]
  from F have f1: "closedSet s3 = ?cl" by blast
  from F have f3: "pathFound s3 = pathFound s" by blast
  from F have f4: "newGrid s3 = (\<lambda>p. if p \<in> set ?ns \<and> p \<notin> ?cl
                then relaxNode alg c (distance (?g1 c)) p (?g1 p) else ?g1 p)" by blast
  from F have f5: "set (openSet s3) = set rest \<union> {p \<in> set ?ns. p \<notin> ?cl \<and>
                                  distance (?g1 c) + 1 < distance (?g1 p)}" by blast
  from F drest have f6: "distinct (openSet s3)" by blast
  have o: "set (openSet (searchStep alg s)) = (set (openSet s) - {c}) \<union> {p. relaxedTo W s c p}"
    unfolding step using f5 rest rt by auto
  have fields: "distance (newGrid (searchStep alg s) p) =
            (if relaxedTo W s c p then distance (?g c) + 1 else distance (?g p)) \<and>
          parent (newGrid (searchStep alg s) p) =
            (if relaxedTo W s c p then Some c else parent (?g p)) \<and>
          (alg = AStar \<longrightarrow> fScore (newGrid (searchStep alg s) p) =
            (if relaxedTo W s c p then distance (?g c) + 1 + enat (hfun alg p)
             else fScore (?g p))) \<and>
          state (newGrid (searchStep alg s) p) =
            (if p = c \<and> state (?g c) \<noteq> Start \<and> state (?g c) \<noteq> Goal
             then Explored else state (?g p))" for p
  proof (cases "relaxedTo W s c p")
    case True
    then have "p \<in> set ?ns \<and> p \<notin> ?cl" and lt: "distance (?g c) + 1 < distance (?g p)"
      and "p \<noteq> c" using rt [of p] by auto
    then show ?thesis unfolding step
      by (simp add: f4 relaxNode_fields markNode_state True)
  next
    case False
    show ?thesis
    proof (cases "p \<in> set ?ns \<and> p \<notin> ?cl")
      case True
      with False rt [of p] have "\<not> distance (?g c) + 1 < distance (?g p)" by simp
      with True False show ?thesis unfolding step
        by (simp add: f4 relaxNode_fields markNode_state)
    next
      case nr: False
      with False show ?thesis unfolding step
        by (auto simp add: f4 markNode_state)
    qed
  qed
  show ?thesis
    unfolding expands_def using f1 f3 f6 o fields by (simp add: step)
qed

section \<open>Reading the description of an iteration\<close>

lemma relaxedToD:
  "relaxedTo W s c p \<Longrightarrow>
     adjacent c p \<and> inGrid p \<and> \<not> W p \<and> p \<notin> closedSet s \<and> p \<noteq> c \<and>
     distance (newGrid s c) + 1 < distance (newGrid s p)"
  using adjacent_neq [of c p] by (auto simp: relaxedTo_def)

lemma not_relaxedTo_closed: "p \<in> closedSet s \<Longrightarrow> \<not> relaxedTo W s c p"
  by (simp add: relaxedTo_def)

lemma not_relaxedTo_self: "\<not> relaxedTo W s c c"
  using relaxedToD [of W s c c] by blast

lemma ex_closed: "expands alg W s c s' \<Longrightarrow> closedSet s' = insert c (closedSet s)"
  unfolding expands_def by blast

lemma ex_found: "expands alg W s c s' \<Longrightarrow> pathFound s' = pathFound s"
  unfolding expands_def by blast

lemma ex_open:
  "expands alg W s c s' \<Longrightarrow> set (openSet s') = (set (openSet s) - {c}) \<union> {p. relaxedTo W s c p}"
  unfolding expands_def by blast

lemma ex_distinct: "expands alg W s c s' \<Longrightarrow> distinct (openSet s')"
  unfolding expands_def by blast

lemma ex_distance:
  "expands alg W s c s' \<Longrightarrow> distance (newGrid s' p) =
     (if relaxedTo W s c p then distance (newGrid s c) + 1 else distance (newGrid s p))"
  unfolding expands_def by blast

lemma ex_parent:
  "expands alg W s c s' \<Longrightarrow> parent (newGrid s' p) =
     (if relaxedTo W s c p then Some c else parent (newGrid s p))"
  unfolding expands_def by blast

lemma ex_fScore:
  "expands alg W s c s' \<Longrightarrow> alg = AStar \<Longrightarrow> fScore (newGrid s' p) =
     (if relaxedTo W s c p then distance (newGrid s c) + 1 + enat (hfun alg p)
      else fScore (newGrid s p))"
  unfolding expands_def by blast

lemma ex_state:
  "expands alg W s c s' \<Longrightarrow> state (newGrid s' p) =
     (if p = c \<and> state (newGrid s c) \<noteq> Start \<and> state (newGrid s c) \<noteq> Goal
      then Explored else state (newGrid s p))"
  unfolding expands_def by blast

lemma ex_discovered:
  assumes "expands alg W s c s'" "c \<in> set (openSet s)"
  shows "discovered s' = discovered s \<union> {p. relaxedTo W s c p}"
  unfolding discovered_def ex_open [OF assms(1)] ex_closed [OF assms(1)] using assms(2) by auto

lemma ex_distance_same:
  "expands alg W s c s' \<Longrightarrow> p \<in> insert c (closedSet s) \<Longrightarrow>
     distance (newGrid s' p) = distance (newGrid s p)"
  using not_relaxedTo_closed [of p s W c] not_relaxedTo_self [of W s c]
  by (auto simp: ex_distance)

lemma ex_distance_le:
  "expands alg W s c s' \<Longrightarrow> distance (newGrid s' p) \<le> distance (newGrid s p)"
  using relaxedToD [of W s c p] by (auto simp: ex_distance)

section \<open>An iteration keeps the invariant\<close>

lemma step_invStates:
  assumes inv: "searchInv alg W s" and c: "c \<in> set (openSet s)" and ex: "expands alg W s c s'"
  shows "invStates W s'"
  unfolding invStates_def
proof (intro allI impI)
  fix p assume p: "inGrid p"
  from c have "c \<in> discovered s" by (simp add: discovered_def)
  from inv_free [OF inv this] have ci: "inGrid c" and cf: "\<not> W c" by simp_all
  note sp = inv_states [OF inv p] and sc = inv_states [OF inv ci]
  show "(state (newGrid s' p) = Wall \<longleftrightarrow> W p) \<and>
        (state (newGrid s' p) = Start \<longleftrightarrow> p = startNode) \<and>
        (state (newGrid s' p) = Goal \<longleftrightarrow> p = goalNode)"
  proof (cases "p = c \<and> state (newGrid s c) \<noteq> Start \<and> state (newGrid s c) \<noteq> Goal")
    case True
    then have "state (newGrid s' p) = Explored" by (simp add: ex_state [OF ex])
    moreover from True sc cf have "\<not> W p \<and> p \<noteq> startNode \<and> p \<noteq> goalNode" by blast
    ultimately show ?thesis by simp
  next
    case False
    then have "state (newGrid s' p) = state (newGrid s p)"
      by (simp only: ex_state [OF ex] if_False)
    with sp show ?thesis by simp
  qed
qed

lemma step_invOpen:
  assumes inv: "searchInv alg W s" and c: "c \<in> set (openSet s)" and ex: "expands alg W s c s'"
  shows "invOpen W s'"
  unfolding invOpen_def
proof (intro conjI ballI)
  show "distinct (openSet s')" by (rule ex_distinct [OF ex])
  show "set (openSet s') \<inter> closedSet s' = {}"
    unfolding ex_open [OF ex] ex_closed [OF ex]
    using inv_disjoint [OF inv] not_relaxedTo_closed [of _ s W c] not_relaxedTo_self [of W s c]
    by blast
next
  fix p assume "p \<in> discovered s'"
  then have "p \<in> discovered s \<or> relaxedTo W s c p" by (simp add: ex_discovered [OF ex c])
  then show "inGrid p" using inv_free [OF inv, of p] relaxedToD [of W s c p] by blast
next
  fix p assume "p \<in> discovered s'"
  then have "p \<in> discovered s \<or> relaxedTo W s c p" by (simp add: ex_discovered [OF ex c])
  then show "\<not> W p" using inv_free [OF inv, of p] relaxedToD [of W s c p] by blast
qed

lemma step_invStart:
  assumes inv: "searchInv alg W s" and c: "c \<in> set (openSet s)" and ex: "expands alg W s c s'"
  shows "invStart s'"
proof -
  note st = inv_start [OF inv]
  have nr: "\<not> relaxedTo W s c startNode"
  proof
    assume "relaxedTo W s c startNode"
    from relaxedToD [OF this] st show False by simp
  qed
  from st nr show ?thesis
    by (simp add: invStart_def ex_distance [OF ex] ex_parent [OF ex] ex_discovered [OF ex c])
qed

lemma step_invFinite:
  assumes inv: "searchInv alg W s" and c: "c \<in> set (openSet s)" and ex: "expands alg W s c s'"
  shows "invFinite s'"
  unfolding invFinite_def
proof (intro allI impI)
  fix p assume p: "inGrid p" and f: "distance (newGrid s' p) \<noteq> \<infinity>"
  show "p \<in> discovered s'"
  proof (cases "relaxedTo W s c p")
    case True
    then show ?thesis by (simp add: ex_discovered [OF ex c])
  next
    case False
    with f have "distance (newGrid s p) \<noteq> \<infinity>" by (simp add: ex_distance [OF ex])
    from inv_finite [OF inv p this] show ?thesis by (simp add: ex_discovered [OF ex c])
  qed
qed

lemma step_invParent:
  assumes inv: "searchInv alg W s" and c: "c \<in> set (openSet s)" and ex: "expands alg W s c s'"
  shows "invParent s'"
  unfolding invParent_def
proof (intro ballI impI)
  fix p assume p: "p \<in> discovered s'" and ns: "p \<noteq> startNode"
  show "\<exists>u. parent (newGrid s' p) = Some u \<and> u \<in> closedSet s' \<and> adjacent u p \<and>
             distance (newGrid s' p) = distance (newGrid s' u) + 1"
  proof (cases "relaxedTo W s c p")
    case True
    from relaxedToD [OF True] have "adjacent c p" by simp
    moreover have "distance (newGrid s' c) = distance (newGrid s c)"
      by (simp add: ex_distance_same [OF ex])
    ultimately show ?thesis using True
      by (simp add: ex_parent [OF ex] ex_closed [OF ex] ex_distance [OF ex])
  next
    case False
    with p have "p \<in> discovered s" by (simp add: ex_discovered [OF ex c])
    from inv_parent [OF inv this ns] obtain u where
      u: "parent (newGrid s p) = Some u" "u \<in> closedSet s" "adjacent u p"
         "distance (newGrid s p) = distance (newGrid s u) + 1" by blast
    have "distance (newGrid s' u) = distance (newGrid s u)"
      using u(2) by (simp add: ex_distance_same [OF ex])
    with u False show ?thesis
      by (simp add: ex_parent [OF ex] ex_closed [OF ex] ex_distance [OF ex])
  qed
qed

lemma step_invWalk:
  assumes inv: "searchInv alg W s" and c: "c \<in> set (openSet s)" and ex: "expands alg W s c s'"
  shows "invWalk W s'"
  unfolding invWalk_def
proof (intro ballI)
  fix p assume p: "p \<in> discovered s'"
  show "\<exists>n. distance (newGrid s' p) = enat n \<and> walk W n p"
  proof (cases "relaxedTo W s c p")
    case True
    from c have "c \<in> discovered s" by (simp add: discovered_def)
    from inv_walk [OF inv this] obtain m where
      m: "distance (newGrid s c) = enat m" "walk W m c" by blast
    from relaxedToD [OF True] have "adjacent c p" "inGrid p" "\<not> W p" by simp_all
    from walk_step [OF m(2) this] have "walk W (Suc m) p" .
    moreover have "distance (newGrid s' p) = enat (Suc m)"
      using True m(1) by (simp add: ex_distance [OF ex] eSuc_enat [symmetric] plus_1_eSuc)
    ultimately show ?thesis by blast
  next
    case False
    with p have "p \<in> discovered s" by (simp add: ex_discovered [OF ex c])
    from inv_walk [OF inv this] False show ?thesis by (simp add: ex_distance [OF ex])
  qed
qed

lemma step_invOptimal:
  assumes inv: "searchInv alg W s" and nf: "\<not> pathFound s" and c: "c \<in> set (openSet s)"
    and least: "\<forall>x \<in> set (openSet s). sortKey alg (newGrid s) c \<le> sortKey alg (newGrid s) x"
    and ex: "expands alg W s c s'"
  shows "invOptimal W s'"
  unfolding invOptimal_def
proof (intro ballI allI impI)
  fix p n assume p: "p \<in> closedSet s'" and w: "walk W n p"
  from p have pc: "p \<in> insert c (closedSet s)" by (simp add: ex_closed [OF ex])
  have "distance (newGrid s p) \<le> enat n"
  proof (cases "p = c")
    case True
    with least_key_optimal [OF inv nf c least] w show ?thesis by simp
  next
    case False
    with pc have "p \<in> closedSet s" by simp
    from inv_optimal [OF inv this w] show ?thesis .
  qed
  then show "distance (newGrid s' p) \<le> enat n"
    by (simp add: ex_distance_same [OF ex pc])
qed

lemma step_invRelaxed:
  assumes inv: "searchInv alg W s" and nf: "\<not> pathFound s" and c: "c \<in> set (openSet s)"
    and ex: "expands alg W s c s'"
  shows "invRelaxed W s'"
  unfolding invRelaxed_def
proof (intro impI ballI allI)
  fix u v
  assume u: "u \<in> closedSet s'" and a: "adjacent u v" and vi: "inGrid v" and vf: "\<not> W v"
  from u have uc: "u \<in> insert c (closedSet s)" by (simp add: ex_closed [OF ex])
  have du: "distance (newGrid s' u) = distance (newGrid s u)"
    by (rule ex_distance_same [OF ex uc])
  have sub: "discovered s \<subseteq> discovered s'" by (auto simp: ex_discovered [OF ex c])
  show "v \<in> discovered s' \<and> distance (newGrid s' v) \<le> distance (newGrid s' u) + 1"
  proof (cases "u \<in> closedSet s")
    case True
    from inv_relaxed [OF inv nf True a vi vf]
    have "v \<in> discovered s" and "distance (newGrid s v) \<le> distance (newGrid s u) + 1"
      by simp_all
    with sub ex_distance_le [OF ex, of v] show ?thesis unfolding du
      by (meson order_trans subsetD)
  next
    case False
    with uc have uc': "u = c" by simp
    have dc: "distance (newGrid s' c) = distance (newGrid s c)"
      by (simp add: ex_distance_same [OF ex])
    show ?thesis
    proof (cases "relaxedTo W s c v")
      case True
      then show ?thesis unfolding uc' dc
        by (simp add: ex_discovered [OF ex c] ex_distance [OF ex])
    next
      case nr: False
      have dv: "distance (newGrid s' v) = distance (newGrid s v)"
        using nr by (simp add: ex_distance [OF ex])
      show ?thesis
      proof (cases "v \<in> closedSet s")
        case True
        from c have "c \<in> discovered s" by (simp add: discovered_def)
        from inv_walk [OF inv this] obtain m where
          m: "distance (newGrid s c) = enat m" "walk W m c" by blast
        from walk_step [OF m(2) a [unfolded uc'] vi vf] have "walk W (Suc m) v" .
        from inv_optimal [OF inv True this] m(1)
        have "distance (newGrid s v) \<le> distance (newGrid s c) + 1"
          by (simp add: eSuc_enat [symmetric] plus_1_eSuc)
        moreover from True sub have "v \<in> discovered s'" by (auto simp: discovered_def)
        ultimately show ?thesis unfolding uc' dc dv by simp
      next
        case False
        with nr a vi vf have le: "distance (newGrid s v) \<le> distance (newGrid s c) + 1"
          unfolding uc' by (simp add: relaxedTo_def)
        from c have "c \<in> discovered s" by (simp add: discovered_def)
        from inv_walk [OF inv this] obtain m where
          m: "distance (newGrid s c) = enat m" by blast
        with le have "distance (newGrid s v) \<noteq> \<infinity>"
          by (cases "distance (newGrid s v)") (simp_all add: one_enat_def)
        from inv_finite [OF inv vi this] sub have "v \<in> discovered s'" by blast
        with le show ?thesis unfolding uc' dc dv by simp
      qed
    qed
  qed
qed

lemma step_invFScore:
  assumes inv: "searchInv alg W s" and c: "c \<in> set (openSet s)" and ex: "expands alg W s c s'"
  shows "invFScore alg s'"
  unfolding invFScore_def
proof (intro impI ballI)
  fix p assume a: "alg = AStar" and p: "p \<in> set (openSet s')"
  show "fScore (newGrid s' p) = distance (newGrid s' p) + enat (hfun alg p)"
  proof (cases "relaxedTo W s c p")
    case True
    then show ?thesis by (simp add: ex_fScore [OF ex a] ex_distance [OF ex])
  next
    case False
    with p have "p \<in> set (openSet s)" by (simp add: ex_open [OF ex])
    from inv_fScore [OF inv a this] False show ?thesis
      by (simp add: ex_fScore [OF ex a] ex_distance [OF ex])
  qed
qed

lemma step_invFound:
  assumes inv: "searchInv alg W s" and nf: "\<not> pathFound s" and ng: "c \<noteq> goalNode"
    and ex: "expands alg W s c s'"
  shows "invFound s'"
  using inv_found [OF inv] nf ng
  by (simp add: invFound_def ex_found [OF ex] ex_closed [OF ex])

lemma expands_searchInv:
  assumes inv: "searchInv alg W s" and nf: "\<not> pathFound s" and c: "c \<in> set (openSet s)"
    and least: "\<forall>x \<in> set (openSet s). sortKey alg (newGrid s) c \<le> sortKey alg (newGrid s) x"
    and ng: "c \<noteq> goalNode"
    and ex: "expands alg W s c s'"
  shows "searchInv alg W s'"
  unfolding searchInv_def
  using step_invStates [OF inv c ex] step_invOpen [OF inv c ex] step_invStart [OF inv c ex]
    step_invFinite [OF inv c ex] step_invParent [OF inv c ex] step_invWalk [OF inv c ex]
    step_invOptimal [OF inv nf c least ex] step_invRelaxed [OF inv nf c ex]
    step_invFScore [OF inv c ex] step_invFound [OF inv nf ng ex]
  by blast

section \<open>The iteration that takes the goal\<close>

lemma close_goal_searchInv:
  assumes inv: "searchInv alg W s" and nf: "\<not> pathFound s" and c: "c \<in> set (openSet s)"
    and least: "\<forall>x \<in> set (openSet s). sortKey alg (newGrid s) c \<le> sortKey alg (newGrid s) x"
    and g: "c = goalNode"
    and rest: "set rest = set (openSet s) - {c}" "distinct rest"
  shows "searchInv alg W (s\<lparr>openSet := rest, closedSet := insert c (closedSet s),
                            pathFound := True\<rparr>)"
    (is "searchInv alg W ?s'")
proof -
  have disc: "discovered ?s' = discovered s"
    using c rest(1) by (auto simp: discovered_def)
  have sub: "closedSet s \<subseteq> closedSet ?s'" by auto
  have 1: "invStates W ?s'"
    using inv by (simp add: searchInv_def invStates_def)
  have 2: "invOpen W ?s'"
    unfolding invOpen_def disc
    using inv_free [OF inv] inv_disjoint [OF inv] rest by auto
  have 3: "invStart ?s'"
    using inv_start [OF inv] by (simp add: invStart_def disc)
  have 4: "invFinite ?s'"
    unfolding invFinite_def disc using inv_finite [OF inv] by simp
  have 5: "invParent ?s'"
    unfolding invParent_def disc using inv_parent [OF inv] by fastforce
  have 6: "invWalk W ?s'"
    unfolding invWalk_def disc using inv_walk [OF inv] by simp
  have 7: "invOptimal W ?s'"
    unfolding invOptimal_def
    using inv_optimal [OF inv] least_key_optimal [OF inv nf c least] by auto
  have 8: "invRelaxed W ?s'" by (simp add: invRelaxed_def)
  have 9: "invFScore alg ?s'"
    unfolding invFScore_def using inv_fScore [OF inv] rest(1) by simp
  have 10: "invFound ?s'" using g by (simp add: invFound_def)
  from 1 2 3 4 5 6 7 8 9 10 show ?thesis unfolding searchInv_def by blast
qed

lemma searchStep_searchInv:
  assumes inv: "searchInv alg W s" and b: "openSet s \<noteq> [] \<and> \<not> pathFound s"
  shows "\<exists>c. c \<in> set (openSet s) \<and> c \<notin> closedSet s \<and> inGrid c \<and>
             closedSet (searchStep alg s) = insert c (closedSet s) \<and>
             searchInv alg W (searchStep alg s)"
proof -
  from b have "sort_key (sortKey alg (newGrid s)) (openSet s) \<noteq> []"
    by (metis length_sort length_0_conv)
  then obtain c rest where srt: "sort_key (sortKey alg (newGrid s)) (openSet s) = c # rest"
    by (cases "sort_key (sortKey alg (newGrid s)) (openSet s)") auto
  from b have nf: "\<not> pathFound s" by simp
  from sort_key_head [OF srt inv_distinct [OF inv]]
  have c: "c \<in> set (openSet s)" and rest: "set rest = set (openSet s) - {c}" "distinct rest"
    and least: "\<forall>x \<in> set (openSet s). sortKey alg (newGrid s) c \<le> sortKey alg (newGrid s) x"
    by blast+
  from c have "c \<in> discovered s" by (simp add: discovered_def)
  from inv_free [OF inv this] have ci: "inGrid c" by simp
  note cn = inv_disjoint [OF inv c]
  show ?thesis
  proof (cases "c = goalNode")
    case True
    have "closedSet (searchStep alg s) = insert c (closedSet s)"
      by (simp add: searchStep_goal [OF srt True])
    moreover from close_goal_searchInv [OF inv nf c least True rest]
    have "searchInv alg W (searchStep alg s)" by (simp add: searchStep_goal [OF srt True])
    ultimately show ?thesis using c cn ci by blast
  next
    case False
    note ex = searchStep_expands [OF inv srt False]
    from expands_searchInv [OF inv nf c least False ex] ex_closed [OF ex] c cn ci
    show ?thesis by blast
  qed
qed

section \<open>The state before the loop\<close>

lemma initSearch_fields:
  "openSet (initSearch alg g) = [startNode]" "closedSet (initSearch alg g) = {}"
  "pathFound (initSearch alg g) = False" "explored (initSearch alg g) = 0"
  "state (newGrid (initSearch alg g) p) = state (g p)"
  "parent (newGrid (initSearch alg g) p) = parent (g p)"
  "distance (newGrid (initSearch alg g) p) = (if p = startNode then 0 else distance (g p))"
  "alg = AStar \<Longrightarrow> fScore (newGrid (initSearch alg g) startNode) = enat (hfun alg startNode)"
  by (simp_all add: initSearch_def Let_def hfun_def)

lemma resetNode_fields:
  "state (resetNode n) = Wall \<longleftrightarrow> state n = Wall"
  "state (resetNode n) = Start \<longleftrightarrow> state n = Start"
  "state (resetNode n) = Goal \<longleftrightarrow> state n = Goal"
  "parent (resetNode n) = None"
  "distance (resetNode n) = (if state n = Start then 0 else \<infinity>)"
  by (auto simp: resetNode_def)

lemma initSearch_searchInv:
  assumes wf: "wellFormed g"
  shows "searchInv alg (walls g) (initSearch alg (\<lambda>p. resetNode (g p)))"
    (is "searchInv alg ?W ?s")
proof -
  note f = initSearch_fields resetNode_fields
  have disc: "discovered ?s = {startNode}" by (simp add: discovered_def f)
  from wf inGrid_start have ss: "state (g startNode) = Start"
    unfolding wellFormed_def by blast
  have 1: "invStates ?W ?s"
    using wf unfolding invStates_def wellFormed_def by (simp add: f walls_def)
  have 2: "invOpen ?W ?s"
    unfolding invOpen_def disc using ss inGrid_start by (simp add: f walls_def)
  have 3: "invStart ?s" by (simp add: invStart_def disc f)
  have 4: "invFinite ?s"
    unfolding invFinite_def disc using wf unfolding wellFormed_def
    by (auto simp: f split: if_splits)
  have 5: "invParent ?s" by (simp add: invParent_def disc)
  have 6: "invWalk ?W ?s"
    unfolding invWalk_def disc using walk_start [of ?W] by (auto simp: f zero_enat_def)
  have 7: "invOptimal ?W ?s" by (simp add: invOptimal_def f)
  have 8: "invRelaxed ?W ?s" by (simp add: invRelaxed_def f)
  have 9: "invFScore alg ?s" by (simp add: invFScore_def f)
  have 10: "invFound ?s" by (simp add: invFound_def f)
  from 1 2 3 4 5 6 7 8 9 10 show ?thesis unfolding searchInv_def by blast
qed

section \<open>The loop ends\<close>

lemma finite_inGrid: "finite {p. inGrid p}"
proof -
  have "{p. inGrid p} \<subseteq> {0 ..< GRID_SIZE} \<times> {0 ..< GRID_SIZE}"
    by (auto simp: inGrid_def)
  then show ?thesis by (rule finite_subset) simp
qed

lemma searchLoop_terminates:
  assumes inv: "searchInv alg W s0"
  shows "\<exists>s. searchLoop alg s0 = Some s"
  unfolding searchLoop_def
proof (rule measure_while_option_Some
    [where P = "searchInv alg W" and f = "\<lambda>s. card ({p. inGrid p} - closedSet s)"])
  show "searchInv alg W s0" by (rule inv)
next
  fix s assume i: "searchInv alg W s" and b: "openSet s \<noteq> [] \<and> \<not> pathFound s"
  from searchStep_searchInv [OF i b] obtain c where
    c: "c \<notin> closedSet s" "inGrid c" "closedSet (searchStep alg s) = insert c (closedSet s)"
    and i': "searchInv alg W (searchStep alg s)" by blast
  have "{p. inGrid p} - insert c (closedSet s) \<subset> {p. inGrid p} - closedSet s"
    using c(1,2) by auto
  then have "card ({p. inGrid p} - insert c (closedSet s)) < card ({p. inGrid p} - closedSet s)"
    by (rule psubset_card_mono [OF finite_Diff [OF finite_inGrid]])
  with i' c(3)
  show "searchInv alg W (searchStep alg s) \<and>
        card ({p. inGrid p} - closedSet (searchStep alg s)) < card ({p. inGrid p} - closedSet s)"
    by simp
qed

lemma searchLoop_result:
  assumes inv: "searchInv alg W s0" and r: "searchLoop alg s0 = Some s"
  shows "searchInv alg W s \<and> (openSet s = [] \<or> pathFound s)"
proof -
  have "searchInv alg W s"
  proof (rule while_option_rule [where P = "searchInv alg W", OF _ r [unfolded searchLoop_def] inv])
    fix t assume "searchInv alg W t" "openSet t \<noteq> [] \<and> \<not> pathFound t"
    from searchStep_searchInv [OF this] show "searchInv alg W (searchStep alg t)" by blast
  qed
  moreover from while_option_stop [OF r [unfolded searchLoop_def]]
  have "openSet s = [] \<or> pathFound s" by blast
  ultimately show ?thesis by blast
qed

section \<open>What the result of the search says\<close>

lemma closed_all_walks:
  assumes inv: "searchInv alg W s" and nf: "\<not> pathFound s" and e: "openSet s = []"
    and w: "walk W n p"
  shows "p \<in> closedSet s"
  using w
proof (induction rule: walk.induct)
  case walk_start
  from inv_start [OF inv] e show ?case by (simp add: discovered_def)
next
  case (walk_step n u v)
  from inv_relaxed [OF inv nf walk_step.IH walk_step.hyps(2,3,4)] e
  show ?case by (simp add: discovered_def)
qed

lemma found_iff_walk:
  assumes inv: "searchInv alg W s" and fin: "openSet s = [] \<or> pathFound s"
  shows "pathFound s \<longleftrightarrow> (\<exists>n. walk W n goalNode)"
proof
  assume "pathFound s"
  with inv_found [OF inv] have "goalNode \<in> discovered s" by (simp add: discovered_def)
  from inv_walk [OF inv this] show "\<exists>n. walk W n goalNode" by blast
next
  assume "\<exists>n. walk W n goalNode"
  then obtain n where w: "walk W n goalNode" by blast
  show "pathFound s"
  proof (rule ccontr)
    assume nf: "\<not> pathFound s"
    with fin have "openSet s = []" by simp
    from closed_all_walks [OF inv nf this w] inv_found [OF inv] nf show False by simp
  qed
qed

lemma found_distance:
  assumes inv: "searchInv alg W s" and f: "pathFound s"
  shows "\<exists>n. distance (newGrid s goalNode) = enat n \<and> walk W n goalNode \<and>
             (\<forall>m. walk W m goalNode \<longrightarrow> n \<le> m)"
proof -
  from f inv_found [OF inv] have c: "goalNode \<in> closedSet s" by simp
  then have "goalNode \<in> discovered s" by (simp add: discovered_def)
  from inv_walk [OF inv this] obtain n where
    n: "distance (newGrid s goalNode) = enat n" "walk W n goalNode" by blast
  have "n \<le> m" if "walk W m goalNode" for m
    using inv_optimal [OF inv c that] n(1) by simp
  with n show ?thesis by blast
qed

section \<open>The reconstruction of the path\<close>

lemma chain_Cons:
  assumes "\<forall>i. Suc i < length path \<longrightarrow> par (path ! Suc i) = Some (path ! i)"
    and "path \<noteq> [] \<longrightarrow> par (hd path) = Some c"
  shows "\<forall>i. Suc i < length (c # path) \<longrightarrow> par ((c # path) ! Suc i) = Some ((c # path) ! i)"
proof (intro allI impI)
  fix i assume l: "Suc i < length (c # path)"
  show "par ((c # path) ! Suc i) = Some ((c # path) ! i)"
  proof (cases i)
    case 0
    with l assms(2) show ?thesis by (simp add: hd_conv_nth)
  next
    case (Suc j)
    with l assms(1) show ?thesis by simp
  qed
qed

lemma reconstructStep_reconInv:
  assumes inv: "searchInv alg W s" and r: "reconInv s (gr, Some c, path)"
  shows "reconInv s (reconstructStep (gr, Some c, path)) \<and>
         reconMeasure s (reconstructStep (gr, Some c, path)) < reconMeasure s (gr, Some c, path)"
proof -
  let ?g = "newGrid s"
  from r have fields: "\<And>p. parent (gr p) = parent (?g p)"
    "\<And>p. state (gr p) = (if p \<in> set path \<and> state (?g p) \<noteq> Start \<and> state (?g p) \<noteq> Goal
                          then Path else state (?g p))"
    and sub: "set path \<subseteq> discovered s"
    and lst: "path \<noteq> [] \<longrightarrow> last path = goalNode"
    and chain: "\<forall>i. Suc i < length path \<longrightarrow> parent (?g (path ! Suc i)) = Some (path ! i)"
    and cd: "c \<in> discovered s" and c0: "path = [] \<longrightarrow> c = goalNode"
    and ch: "path \<noteq> [] \<longrightarrow> parent (?g (hd path)) = Some c"
    and len: "distance (?g c) + enat (length path) = distance (?g goalNode)"
    unfolding reconInv_def prod.case option.case by blast+
  have step: "reconstructStep (gr, Some c, path) = (markNode Path c gr, parent (?g c), c # path)"
    by (simp add: reconstructStep_def fields)
  have f': "parent (markNode Path c gr p) = parent (?g p) \<and>
            state (markNode Path c gr p) =
              (if p \<in> set (c # path) \<and> state (?g p) \<noteq> Start \<and> state (?g p) \<noteq> Goal
               then Path else state (?g p))" for p
    by (auto simp: markNode_state fields)
  have sub': "set (c # path) \<subseteq> discovered s" using sub cd by simp
  have lst': "c # path \<noteq> [] \<longrightarrow> last (c # path) = goalNode" using lst c0 by simp
  note chain' = chain_Cons [of path "\<lambda>p. parent (?g p)" c, OF chain ch]
  from inv_walk [OF inv cd] obtain n where n: "distance (?g c) = enat n" by blast
  show ?thesis
  proof (cases "c = startNode")
    case True
    with inv_start [OF inv] have p: "parent (?g c) = None" and d: "distance (?g c) = 0"
      by simp_all
    from len d have "enat (length (c # path)) = distance (?g goalNode) + 1"
      by (simp add: eSuc_enat [symmetric] plus_1_eSuc)
    with f' sub' lst' chain' True show ?thesis
      unfolding step p reconInv_def reconMeasure_def by (simp del: split_paired_All)
  next
    case False
    from inv_parent [OF inv cd False] obtain u where
      u: "parent (?g c) = Some u" "u \<in> closedSet s" "distance (?g c) = distance (?g u) + 1"
      by blast
    from u(2) have ud: "u \<in> discovered s" by (simp add: discovered_def)
    from inv_walk [OF inv ud] obtain m where m: "distance (?g u) = enat m" by blast
    from u(3) n m have nm: "n = Suc m" by (simp add: one_enat_def)
    from len n m nm have "distance (?g u) + enat (length (c # path)) = distance (?g goalNode)"
      by simp
    with f' sub' lst' chain' ud u(1) n m nm show ?thesis
      unfolding step reconInv_def reconMeasure_def by (simp del: split_paired_All)
  qed
qed

lemma reconstructPath_correct:
  assumes inv: "searchInv alg W s" and f: "pathFound s"
  shows "\<exists>g' path. reconstructPath (newGrid s) = Some (g', path) \<and>
           reconInv s (g', None, path)"
proof -
  let ?b = "\<lambda>(g, current, path). current \<noteq> (None :: pos option)"
  let ?init = "(newGrid s, Some goalNode, [] :: pos list)"
  from f inv_found [OF inv] have gd: "goalNode \<in> discovered s" by (simp add: discovered_def)
  then have i0: "reconInv s ?init"
    by (simp add: reconInv_def zero_enat_def [symmetric] del: split_paired_All)
  have stp: "reconInv s (reconstructStep t) \<and> reconMeasure s (reconstructStep t) < reconMeasure s t"
    if "reconInv s t" "?b t" for t
  proof -
    obtain gr cur path where t: "t = (gr, cur, path)" by (cases t)
    with that(2) obtain c where c: "cur = Some c" by auto
    from reconstructStep_reconInv [OF inv that(1) [unfolded t c]] show ?thesis
      unfolding t c .
  qed
  from measure_while_option_Some [of "reconInv s" ?b reconstructStep "reconMeasure s", OF _ i0]
    stp
  obtain t where t: "while_option ?b reconstructStep ?init = Some t" by blast
  have ri: "reconInv s t"
    by (rule while_option_rule [where P = "reconInv s", OF _ t i0]) (use stp in blast)
  obtain g' cur path where tt: "t = (g', cur, path)" by (cases t)
  from while_option_stop [OF t] have "cur = None" by (cases cur) (simp_all add: tt)
  with ri t tt show ?thesis by (simp add: reconstructPath_def)
qed

section \<open>A run of runAlgorithm\<close>

text \<open>
  The efficiency at 218 explored nodes: the product is a double just above 54.5, so the
  difference is just below 45.5 and is rounded down.
\<close>

lemma efficiencyOf_218: "efficiencyOf 218 = 45"
  by code_simp

lemma search_outcome:
  assumes wf: "wellFormed g"
  shows "\<exists>s. searchLoop alg (initSearch alg (\<lambda>p. resetNode (g p))) = Some s \<and>
             searchInv alg (walls g) s \<and> (openSet s = [] \<or> pathFound s) \<and>
             (pathFound s \<longleftrightarrow> (\<exists>n. walk (walls g) n goalNode))"
proof -
  note i0 = initSearch_searchInv [OF wf, of alg]
  from searchLoop_terminates [OF i0] obtain s where
    s: "searchLoop alg (initSearch alg (\<lambda>p. resetNode (g p))) = Some s" by blast
  from searchLoop_result [OF i0 s] found_iff_walk [of alg "walls g" s] s
  show ?thesis by blast
qed

lemma reconInv_final:
  assumes inv: "searchInv alg W s" and f: "pathFound s" and r: "reconInv s (g', None, path)"
  shows "path \<noteq> [] \<and> hd path = startNode \<and> last path = goalNode \<and>
         (\<forall>i. Suc i < length path \<longrightarrow> parent (newGrid s (path ! Suc i)) = Some (path ! i)) \<and>
         (\<forall>p \<in> set path. p \<noteq> startNode \<longrightarrow> p \<noteq> goalNode \<longrightarrow> state (g' p) = Path) \<and>
         (\<forall>p. p \<notin> set path \<longrightarrow> state (g' p) = state (newGrid s p)) \<and>
         state (g' startNode) = Start \<and> state (g' goalNode) = Goal \<and>
         enat (length path) = distance (newGrid s goalNode) + 1"
proof -
  let ?g = "newGrid s"
  from r have st: "\<And>p. state (g' p) = (if p \<in> set path \<and> state (?g p) \<noteq> Start
                            \<and> state (?g p) \<noteq> Goal then Path else state (?g p))"
    and sub: "set path \<subseteq> discovered s"
    and lst: "path \<noteq> [] \<longrightarrow> last path = goalNode"
    and chain: "\<forall>i. Suc i < length path \<longrightarrow> parent (?g (path ! Suc i)) = Some (path ! i)"
    and ne: "path \<noteq> []" and hd: "hd path = startNode"
    and len: "enat (length path) = distance (?g goalNode) + 1"
    unfolding reconInv_def prod.case option.case by blast+
  note ss = inv_states [OF inv inGrid_start] and sg = inv_states [OF inv inGrid_goal]
  have marks: "\<forall>p \<in> set path. p \<noteq> startNode \<longrightarrow> p \<noteq> goalNode \<longrightarrow> state (g' p) = Path"
  proof (intro ballI impI)
    fix p assume p: "p \<in> set path" "p \<noteq> startNode" "p \<noteq> goalNode"
    with sub have "p \<in> discovered s" by blast
    from inv_free [OF inv this] have "inGrid p" by simp
    from inv_states [OF inv this] p show "state (g' p) = Path" by (simp add: st)
  qed
  have others: "\<forall>p. p \<notin> set path \<longrightarrow> state (g' p) = state (?g p)" by (simp add: st)
  have es: "state (g' startNode) = Start" using ss by (simp add: st)
  have eg: "state (g' goalNode) = Goal" using sg by (simp add: st)
  from ne hd lst chain marks others es eg len show ?thesis by blast
qed

lemma runAlgorithm_found:
  assumes gv: "grid v = Some g" and alg: "alg = Dijkstra \<or> alg = AStar"
    and s: "searchLoop alg (initSearch alg (\<lambda>p. resetNode (g p))) = Some s"
    and f: "pathFound s"
    and r: "reconstructPath (newGrid s) = Some (g', path)"
  shows "\<exists>v'. runAlgorithm alg elapsed v = Some v' \<and>
           pathLength (stats v') = int (length path) - 1 \<and>
           nodesExplored (stats v') = explored s \<and>
           (grid v' = Some g' \<or> grid v' = Some g)"
  using assms by (auto simp: runAlgorithm_def Let_def)

lemma runAlgorithm_not_found:
  assumes gv: "grid v = Some g" and alg: "alg = Dijkstra \<or> alg = AStar"
    and s: "searchLoop alg (initSearch alg (\<lambda>p. resetNode (g p))) = Some s"
    and f: "\<not> pathFound s"
  shows "\<exists>v'. runAlgorithm alg elapsed v = Some v' \<and>
           pathLength (stats v') = pathLength (stats v) \<and>
           executionTime (stats v') = executionTime (stats v) \<and>
           optimalPath (stats v') = optimalPath (stats v) \<and>
           efficiency (stats v') = efficiency (stats v) \<and>
           (grid v' = Some (newGrid s) \<or> grid v' = Some g)"
  using assms by (auto simp: runAlgorithm_def Let_def)

lemma found_length:
  assumes inv: "searchInv alg W s" and f: "pathFound s" and r: "reconInv s (g', None, path)"
  shows "\<exists>n. int (length path) - 1 = int n \<and> walk W n goalNode \<and>
             (\<forall>m. walk W m goalNode \<longrightarrow> n \<le> m)"
proof -
  from found_distance [OF inv f] obtain n where
    n: "distance (newGrid s goalNode) = enat n" "walk W n goalNode"
       "\<forall>m. walk W m goalNode \<longrightarrow> n \<le> m" by blast
  from reconInv_final [OF inv f r] have "enat (length path) = distance (newGrid s goalNode) + 1"
    by blast
  with n(1) have "length path = Suc n" by (simp add: one_enat_def)
  then have "int (length path) - 1 = int n" by simp
  with n show ?thesis by blast
qed

lemma run_length:
  assumes gv: "grid v = Some g" and wf: "wellFormed g" and alg: "alg = Dijkstra \<or> alg = AStar"
    and w: "\<exists>n. walk (walls g) n goalNode"
  shows "\<exists>v' n. runAlgorithm alg elapsed v = Some v' \<and> pathLength (stats v') = int n \<and>
           walk (walls g) n goalNode \<and> (\<forall>m. walk (walls g) m goalNode \<longrightarrow> n \<le> m)"
proof -
  from search_outcome [OF wf, of alg] w obtain s where
    s: "searchLoop alg (initSearch alg (\<lambda>p. resetNode (g p))) = Some s"
    and inv: "searchInv alg (walls g) s" and f: "pathFound s" by blast
  from reconstructPath_correct [OF inv f] obtain g' path where
    r: "reconstructPath (newGrid s) = Some (g', path)" and ri: "reconInv s (g', None, path)"
    by blast
  from runAlgorithm_found [OF gv alg s f r, of elapsed] obtain v' where
    v': "runAlgorithm alg elapsed v = Some v'" "pathLength (stats v') = int (length path) - 1"
    by blast
  from found_length [OF inv f ri] v' show ?thesis by auto
qed

text \<open>
  C2: on every well-formed grid in which a path leads from the start to the goal, the run
  in Dijkstra mode and the run in A* mode both return, and both report the same path
  length \<open>n\<close>: there is a path of \<open>n\<close> edges from the start to the goal, and no path
  to the goal has fewer.
\<close>

theorem dijkstra_astar_same_length:
  assumes "grid v = Some g" and "wellFormed g" and "\<exists>n. walk (walls g) n goalNode"
  shows "\<exists>vd va n. runAlgorithm Dijkstra elapsed v = Some vd \<and>
           runAlgorithm AStar elapsed' v = Some va \<and>
           pathLength (stats vd) = int n \<and> pathLength (stats va) = int n \<and>
           walk (walls g) n goalNode \<and> (\<forall>m. walk (walls g) m goalNode \<longrightarrow> n \<le> m)"
proof -
  from run_length [OF assms(1,2) _ assms(3), of Dijkstra elapsed] obtain vd n where
    d: "runAlgorithm Dijkstra elapsed v = Some vd" "pathLength (stats vd) = int n"
       "walk (walls g) n goalNode" "\<forall>m. walk (walls g) m goalNode \<longrightarrow> n \<le> m" by auto
  from run_length [OF assms(1,2) _ assms(3), of AStar elapsed'] obtain va k where
    a: "runAlgorithm AStar elapsed' v = Some va" "pathLength (stats va) = int k"
       "walk (walls g) k goalNode" "\<forall>m. walk (walls g) m goalNode \<longrightarrow> k \<le> m" by auto
  from d(3,4) a(3,4) have "k = n" by (simp add: order_antisym)
  with d a show ?thesis by blast
qed


section \<open>The grid of every state of the component\<close>

lemma wellFormed_initializeGrid: "wellFormed (initializeGrid rnd)"
  unfolding wellFormed_def
proof (intro allI impI)
  fix p :: pos assume "inGrid p"
  obtain x y where p: "p = (x, y)" by (cases p)
  show "(state (initializeGrid rnd p) = Start \<longleftrightarrow> p = startNode) \<and>
        (state (initializeGrid rnd p) = Goal \<longleftrightarrow> p = goalNode)"
    unfolding p by (simp add: initializeGrid_def startNode_def goalNode_def GRID_SIZE_def)
qed

lemma wellFormed_newGrid:
  assumes "searchInv alg W s"
  shows "wellFormed (newGrid s) \<and> (\<forall>p. inGrid p \<longrightarrow> walls (newGrid s) p = W p)"
  using inv_states [OF assms] unfolding wellFormed_def walls_def by blast

lemma wellFormed_reconstructed:
  assumes inv: "searchInv alg W s" and r: "reconInv s (g', None, path)"
  shows "wellFormed g' \<and> (\<forall>p. inGrid p \<longrightarrow> walls g' p = W p)"
proof -
  let ?g = "newGrid s"
  from r have st: "\<And>p. state (g' p) = (if p \<in> set path \<and> state (?g p) \<noteq> Start
                            \<and> state (?g p) \<noteq> Goal then Path else state (?g p))"
    and sub: "set path \<subseteq> discovered s"
    unfolding reconInv_def prod.case option.case by blast+
  have "(state (g' p) = Wall \<longleftrightarrow> W p) \<and> (state (g' p) = Start \<longleftrightarrow> p = startNode) \<and>
        (state (g' p) = Goal \<longleftrightarrow> p = goalNode)" if p: "inGrid p" for p
  proof (cases "p \<in> set path \<and> state (?g p) \<noteq> Start \<and> state (?g p) \<noteq> Goal")
    case True
    then have "state (g' p) = Path" by (simp add: st)
    moreover from True sub have "p \<in> discovered s" by blast
    from inv_free [OF inv this] have "\<not> W p" by simp
    moreover from True inv_states [OF inv p] have "p \<noteq> startNode \<and> p \<noteq> goalNode" by blast
    ultimately show ?thesis by simp
  next
    case False
    then have "state (g' p) = state (?g p)" by (simp only: st if_False)
    with inv_states [OF inv p] show ?thesis by simp
  qed
  then show ?thesis unfolding wellFormed_def walls_def by blast
qed

lemma runAlgorithm_wellFormed:
  assumes wf: "\<forall>g. grid v = Some g \<longrightarrow> wellFormed g"
    and r: "runAlgorithm alg elapsed v = Some v'" and g': "grid v' = Some h"
  shows "wellFormed h"
proof (cases "grid v")
  case None
  with r g' show ?thesis by (simp add: runAlgorithm_def)
next
  case (Some g)
  with wf have wg: "wellFormed g" by simp
  show ?thesis
  proof (cases "alg = Dijkstra \<or> alg = AStar")
    case False
    with r g' Some wg show ?thesis by (simp add: runAlgorithm_def)
  next
    case True
    from search_outcome [OF wg, of alg] obtain s where
      s: "searchLoop alg (initSearch alg (\<lambda>p. resetNode (g p))) = Some s"
      and inv: "searchInv alg (walls g) s" by blast
    note ng = wellFormed_newGrid [OF inv]
    show ?thesis
    proof (cases "pathFound s")
      case False
      from runAlgorithm_not_found [OF Some True s False, of elapsed] r
      have "grid v' = Some (newGrid s) \<or> grid v' = Some g" by auto
      with g' wg ng show ?thesis by auto
    next
      case f: True
      from reconstructPath_correct [OF inv f] obtain k path where
        rp: "reconstructPath (newGrid s) = Some (k, path)"
        and ri: "reconInv s (k, None, path)" by blast
      from runAlgorithm_found [OF Some True s f rp, of elapsed] r
      have "grid v' = Some k \<or> grid v' = Some g" by auto
      with g' wg wellFormed_reconstructed [OF inv ri] show ?thesis by auto
    qed
  qed
qed

text \<open>In every state of the component that the rules give, the grid is well formed.\<close>

lemma reachableV_wellFormed: "reachableV v \<Longrightarrow> grid v = Some g \<Longrightarrow> wellFormed g"
proof (induction arbitrary: g rule: reachableV.induct)
  case first_render
  then show ?case by simp
next
  case (mounted rnd)
  then show ?case using wellFormed_initializeGrid by auto
next
  case (reset v rnd)
  then show ?case using wellFormed_initializeGrid by (auto simp: resetGrid_def)
next
  case (run v alg elapsed v')
  from run.IH have "\<forall>g. grid v = Some g \<longrightarrow> wellFormed g" by blast
  from runAlgorithm_wellFormed [OF this run.hyps(2) run.prems] show ?case .
next
  case (reset_in_last_wait v g0 alg s g' path p elapsed v' rnd)
  then show ?case using wellFormed_initializeGrid by auto
qed


section \<open>The example grids\<close>

lemma walls_openField: "\<not> walls (initializeGrid (\<lambda>p. False)) p"
  by (cases p) (simp add: walls_def initializeGrid_def)

lemma walk_openField_row:
  "k \<le> 17 \<Longrightarrow> walk (walls (initializeGrid (\<lambda>p. False))) k (1 + int k, 1)"
proof (induction k)
  case 0
  show ?case using walk_start [of "walls (initializeGrid (\<lambda>p. False))"]
    by (simp add: startNode_def)
next
  case (Suc k)
  then have w: "walk (walls (initializeGrid (\<lambda>p. False))) k (1 + int k, 1)" by simp
  have a: "adjacent (1 + int k, 1) (1 + int (Suc k), 1)" by (simp add: adjacent_def)
  have i: "inGrid (1 + int (Suc k), 1)" using Suc.prems by (simp add: inGrid_def GRID_SIZE_def)
  from walk_step [OF w a i walls_openField] show ?case .
qed

lemma walk_openField_col:
  "k \<le> 17 \<Longrightarrow> walk (walls (initializeGrid (\<lambda>p. False))) (17 + k) (18, 1 + int k)"
proof (induction k)
  case 0
  show ?case using walk_openField_row [of 17] by simp
next
  case (Suc k)
  then have w: "walk (walls (initializeGrid (\<lambda>p. False))) (17 + k) (18, 1 + int k)" by simp
  have a: "adjacent (18, 1 + int k) (18, 1 + int (Suc k))" by (simp add: adjacent_def)
  have i: "inGrid (18, 1 + int (Suc k))" using Suc.prems by (simp add: inGrid_def GRID_SIZE_def)
  from walk_step [OF w a i walls_openField] show ?case by simp
qed

lemma walk_openField_goal: "walk (walls (initializeGrid (\<lambda>p. False))) 34 goalNode"
  using walk_openField_col [of 17] by (simp add: goalNode_def GRID_SIZE_def)

lemma walk_lower_bound: "walk W n p \<Longrightarrow> calculateHeuristic p startNode \<le> n"
proof (induction rule: walk.induct)
  case walk_start
  show ?case by (simp add: calculateHeuristic_def)
next
  case (walk_step n u v)
  from walk_step.hyps(2) have "\<bar>fst u - fst v\<bar> + \<bar>snd u - snd v\<bar> = 1" by (simp add: adjacent_def)
  then have "nat (\<bar>fst v - fst startNode\<bar> + \<bar>snd v - snd startNode\<bar>)
             \<le> nat (\<bar>fst u - fst startNode\<bar> + \<bar>snd u - snd startNode\<bar>) + 1" by linarith
  with walk_step.IH show ?case by (simp add: calculateHeuristic_def)
qed



theorem dijkstra_astar_same_length_witness:
  "\<exists>vd va. runAlgorithm Dijkstra 0 openField = Some vd \<and>
           runAlgorithm AStar 0 openField = Some va \<and>
           pathLength (stats vd) = 34 \<and> pathLength (stats va) = 34"
proof -
  let ?g = "initializeGrid (\<lambda>p. False)"
  have g: "grid openField = Some ?g" by (simp add: openField_def)
  have w: "\<exists>n. walk (walls ?g) n goalNode" using walk_openField_goal by blast
  from dijkstra_astar_same_length [OF g wellFormed_initializeGrid w, of 0 0]
  obtain vd va n where r: "runAlgorithm Dijkstra 0 openField = Some vd"
    "runAlgorithm AStar 0 openField = Some va"
    "pathLength (stats vd) = int n" "pathLength (stats va) = int n"
    "walk (walls ?g) n goalNode" "\<forall>m. walk (walls ?g) m goalNode \<longrightarrow> n \<le> m" by blast
  from r(6) walk_openField_goal have "n \<le> 34" by blast
  moreover from walk_lower_bound [OF r(5)] have "34 \<le> n"
    by (simp add: calculateHeuristic_def goalNode_def startNode_def GRID_SIZE_def)
  ultimately have "n = 34" by simp
  with r show ?thesis by simp
qed






section \<open>A path length left over from another grid\<close>




end
